theory Spec2Isabelle
  imports Complex_Main "HOL-Library.Multiset" "HOL-Library.AList"
begin

section \<open>Q-TRAX: the dynamic multi-agent annealing scheduler\<close>

text \<open>
  A shallow embedding of the core of \<^verbatim>\<open>qtrax_sdk\<close>: the graph model
  (\<^verbatim>\<open>models/problem.py\<close>), candidate routes (\<^verbatim>\<open>models/solution.py\<close>), agents
  (\<^verbatim>\<open>models/agent.py\<close>), the route cost evaluator (\<^verbatim>\<open>core/annealer.py\<close>), the
  perturbation operators (\<^verbatim>\<open>core/neighbor.py\<close>) and the tick scheduler
  (\<^verbatim>\<open>core/dynamic_annealer.py\<close>).

  Every exception the modelled code can raise is a value of \<open>py_error\<close>; a function that
  can raise returns \<open>py_error + 'a\<close>. Python floats are IEEE 754 binary64 values with
  round-to-nearest-even arithmetic (\<open>pyfloat\<close> below).
\<close>

subsection \<open>Exceptions\<close>

datatype py_error =
    ValueError
  | IndexError
  | KeyError
  | ZeroDivisionError
  | StopIteration
  | NetworkXError
  | UnboundLocalError
  | OverflowError
  | RuntimeError

subsection \<open>Python floats\<close>

text \<open>
  A Python \<^verbatim>\<open>float\<close> is an IEEE 754 binary64 value: a finite double, given by the real
  number it denotes, an infinity or a NaN. The two zeros are one value: the modelled code
  compares, adds, multiplies, divides (a zero divisor of either sign raises) and
  exponentiates, and none of these tells them apart in what it returns.
\<close>

datatype pyfloat = Fin real | PInf | NInf | NaN

text \<open>
  Rounding to the nearest double, ties to the even significand. \<open>binade x\<close> is the
  exponent \<open>e\<close> with \<open>2\<^sup>e \<le> \<bar>x\<bar> < 2\<^sup>e\<^sup>+\<^sup>1\<close>, held at \<open>-1022\<close> in the subnormal range;
  \<open>ulp x\<close> is the spacing of the doubles there (53 significant bits); a result of
  magnitude \<open>2\<^sup>1\<^sup>0\<^sup>2\<^sup>4\<close> or more overflows to an infinity.
\<close>

definition round_half_even :: "real \<Rightarrow> int" where
  "round_half_even q =
     (let f = \<lfloor>q\<rfloor> in
      if q - of_int f < 1 / 2 then f
      else if 1 / 2 < q - of_int f then f + 1
      else if even f then f else f + 1)"

definition binade :: "real \<Rightarrow> int" where
  "binade x = (if \<bar>x\<bar> < 2 powi (- 1022) then - 1022 else \<lfloor>log 2 \<bar>x\<bar>\<rfloor>)"

definition ulp :: "real \<Rightarrow> real" where
  "ulp x = 2 powi (binade x - 52)"

definition rne :: "real \<Rightarrow> real" where
  "rne x = of_int (round_half_even (x / ulp x)) * ulp x"

definition round_double :: "real \<Rightarrow> pyfloat" where
  "round_double x =
     (let y = rne x in
      if 2 ^ 1024 \<le> y then PInf else if y \<le> - (2 ^ 1024) then NInf else Fin y)"

text \<open>
  A decimal literal such as \<^verbatim>\<open>0.9\<close> or \<^verbatim>\<open>1e-9\<close> denotes the double nearest to it:
  \<open>round_double (9 / 10)\<close>, \<open>round_double (1 / 1000000000)\<close>.

  The operators \<^verbatim>\<open>+\<close>, \<^verbatim>\<open>-\<close>, \<^verbatim>\<open>*\<close>, \<^verbatim>\<open>/\<close>, \<^verbatim>\<open><\<close> and \<^verbatim>\<open>>=\<close> on floats. The exact result
  of an operation on finite doubles is rounded; a NaN operand gives NaN and makes every
  comparison false. Python's float division raises \<^verbatim>\<open>ZeroDivisionError\<close> on a zero
  divisor, whatever the dividend.
\<close>

fun fneg :: "pyfloat \<Rightarrow> pyfloat" where
  "fneg (Fin x) = Fin (- x)"
| "fneg PInf = NInf"
| "fneg NInf = PInf"
| "fneg NaN = NaN"

fun fadd :: "pyfloat \<Rightarrow> pyfloat \<Rightarrow> pyfloat" where
  "fadd (Fin x) (Fin y) = round_double (x + y)"
| "fadd NaN b = NaN"
| "fadd a NaN = NaN"
| "fadd PInf NInf = NaN"
| "fadd NInf PInf = NaN"
| "fadd PInf b = PInf"
| "fadd a PInf = PInf"
| "fadd NInf b = NInf"
| "fadd a NInf = NInf"

definition fsub :: "pyfloat \<Rightarrow> pyfloat \<Rightarrow> pyfloat" where
  "fsub a b = fadd a (fneg b)"

fun fsign_inf :: "bool \<Rightarrow> pyfloat" where
  "fsign_inf True = PInf"
| "fsign_inf False = NInf"

fun fmul :: "pyfloat \<Rightarrow> pyfloat \<Rightarrow> pyfloat" where
  "fmul (Fin x) (Fin y) = round_double (x * y)"
| "fmul NaN b = NaN"
| "fmul a NaN = NaN"
| "fmul (Fin x) PInf = (if x = 0 then NaN else fsign_inf (0 < x))"
| "fmul (Fin x) NInf = (if x = 0 then NaN else fsign_inf (x < 0))"
| "fmul PInf (Fin y) = (if y = 0 then NaN else fsign_inf (0 < y))"
| "fmul NInf (Fin y) = (if y = 0 then NaN else fsign_inf (y < 0))"
| "fmul PInf PInf = PInf"
| "fmul PInf NInf = NInf"
| "fmul NInf PInf = NInf"
| "fmul NInf NInf = PInf"

fun fdiv :: "pyfloat \<Rightarrow> pyfloat \<Rightarrow> py_error + pyfloat" where
  "fdiv a (Fin y) =
     (if y = 0 then Inl ZeroDivisionError
      else
        (case a of
           Fin x \<Rightarrow> Inr (round_double (x / y))
         | PInf \<Rightarrow> Inr (fsign_inf (0 < y))
         | NInf \<Rightarrow> Inr (fsign_inf (y < 0))
         | NaN \<Rightarrow> Inr NaN))"
| "fdiv a NaN = Inr NaN"
| "fdiv (Fin x) PInf = Inr (Fin 0)"
| "fdiv (Fin x) NInf = Inr (Fin 0)"
| "fdiv a PInf = Inr NaN"
| "fdiv a NInf = Inr NaN"

fun flt :: "pyfloat \<Rightarrow> pyfloat \<Rightarrow> bool" where
  "flt (Fin x) (Fin y) = (x < y)"
| "flt NaN b = False"
| "flt a NaN = False"
| "flt a NInf = False"
| "flt PInf b = False"
| "flt NInf b = True"
| "flt a PInf = True"

fun fge :: "pyfloat \<Rightarrow> pyfloat \<Rightarrow> bool" where
  "fge (Fin x) (Fin y) = (x \<ge> y)"
| "fge NaN b = False"
| "fge a NaN = False"
| "fge PInf b = True"
| "fge a NInf = True"
| "fge a PInf = False"
| "fge NInf b = False"

text \<open>
  \<^verbatim>\<open>math.exp\<close>, taken to be correctly rounded: \<^verbatim>\<open>OverflowError\<close> when the result of a
  finite argument is too large for a double, \<open>0.0\<close> when it is too small.
\<close>

fun fexp :: "pyfloat \<Rightarrow> py_error + pyfloat" where
  "fexp (Fin x) =
     (case round_double (exp x) of
        PInf \<Rightarrow> Inl OverflowError
      | r \<Rightarrow> Inr r)"
| "fexp PInf = Inr PInf"
| "fexp NInf = Inr (Fin 0)"
| "fexp NaN = Inr NaN"

subsection \<open>The pseudo-random generator\<close>

text \<open>
  Python's module-level generator is hidden global state, seeded once by
  \<^verbatim>\<open>random.seed(random_seed)\<close>. Here it is an explicit value threaded through every
  function that draws from it: an infinite stream of raw draws and the position of the
  next one. \<^verbatim>\<open>random.random()\<close> yields a multiple of \<open>2\<^sup>-\<^sup>5\<^sup>3\<close> in \<open>[0, 1)\<close>, a double;
  \<^verbatim>\<open>_randbelow(n)\<close>, which the library calls with \<open>n > 0\<close> only, yields a member of
  \<^verbatim>\<open>range(n)\<close>. Every value of the respective range is reachable by a suitable stream.
\<close>

record rng =
  raw :: "nat \<Rightarrow> nat"
  pos :: nat

definition random_py :: "rng \<Rightarrow> pyfloat \<times> rng" where
  "random_py g = (Fin (real (raw g (pos g) mod 2 ^ 53) / 2 ^ 53), g\<lparr>pos := Suc (pos g)\<rparr>)"

definition randbelow :: "nat \<Rightarrow> rng \<Rightarrow> nat \<times> rng" where
  "randbelow n g = (raw g (pos g) mod n, g\<lparr>pos := Suc (pos g)\<rparr>)"

text \<open>
  \<^verbatim>\<open>random.shuffle(x)\<close>:
  \<^verbatim>\<open>for i in reversed(range(1, len(x))): j = randbelow(i + 1); x[i], x[j] = x[j], x[i]\<close>.
  \<open>shuffle_from k\<close> runs the loop for \<open>i = k, k - 1, \<dots>, 1\<close>.
\<close>

fun shuffle_from :: "nat \<Rightarrow> 'a list \<Rightarrow> rng \<Rightarrow> 'a list \<times> rng" where
  "shuffle_from 0 x g = (x, g)"
| "shuffle_from (Suc i) x g =
     (case randbelow (Suc i + 1) g of
        (j, g') \<Rightarrow> shuffle_from i (x[Suc i := x ! j, j := x ! Suc i]) g')"

definition shuffle :: "'a list \<Rightarrow> rng \<Rightarrow> 'a list \<times> rng" where
  "shuffle x g = shuffle_from (length x - 1) x g"

text \<open>
  \<^verbatim>\<open>random.sample(population, 2)\<close>: raises \<^verbatim>\<open>ValueError\<close> when the population has fewer
  than two members; otherwise selects without replacement from a pool
  (\<^verbatim>\<open>j = randbelow(n - i); result[i] = pool[j]; pool[j] = pool[n - i - 1]\<close>). That is
  the library's algorithm for populations of up to 21 members; for larger ones it redraws
  an index until it is a new one, which takes other draws from the stream to the same
  results: two members at different positions, every ordered pair of positions being
  reachable (lemma \<open>sample2_reaches\<close>).
\<close>

definition sample2 :: "'a list \<Rightarrow> rng \<Rightarrow> py_error + (('a \<times> 'a) \<times> rng)" where
  "sample2 population g =
     (let n = length population in
      if n < 2 then Inl ValueError
      else
        (case randbelow n g of
           (j1, g1) \<Rightarrow>
             (let pool = population[j1 := population ! (n - 1)] in
              (case randbelow (n - 1) g1 of
                 (j2, g2) \<Rightarrow> Inr ((population ! j1, pool ! j2), g2)))))"

text \<open>\<^verbatim>\<open>random.choice(seq)\<close>: \<^verbatim>\<open>IndexError\<close> on an empty sequence.\<close>

definition choice_py :: "'a list \<Rightarrow> rng \<Rightarrow> py_error + ('a \<times> rng)" where
  "choice_py xs g =
     (if xs = [] then Inl IndexError
      else (case randbelow (length xs) g of (j, g') \<Rightarrow> Inr (xs ! j, g')))"

subsection \<open>Python list helpers\<close>

text \<open>\<^verbatim>\<open>xs.index(v)\<close>: the first position of \<open>v\<close>; \<open>None\<close> stands for \<^verbatim>\<open>ValueError\<close>.\<close>

fun first_index :: "('a \<Rightarrow> bool) \<Rightarrow> 'a list \<Rightarrow> nat option" where
  "first_index P [] = None"
| "first_index P (x # xs) =
     (if P x then Some 0 else map_option Suc (first_index P xs))"

definition index_of :: "'a list \<Rightarrow> 'a \<Rightarrow> nat option" where
  "index_of xs v = first_index (\<lambda>x. x = v) xs"

text \<open>The slice \<^verbatim>\<open>xs[i:j]\<close> and the slice assignment \<^verbatim>\<open>xs[i:j] = seg\<close>, for \<open>0 \<le> i, j\<close>.\<close>

definition slice :: "nat \<Rightarrow> nat \<Rightarrow> 'a list \<Rightarrow> 'a list" where
  "slice i j xs = take (j - i) (drop i xs)"

definition slice_assign :: "'a list \<Rightarrow> nat \<Rightarrow> nat \<Rightarrow> 'a list \<Rightarrow> 'a list" where
  "slice_assign xs i j seg = take i xs @ seg @ drop (max i j) xs"

subsection \<open>Graph model (\<^verbatim>\<open>models/problem.py\<close>)\<close>

type_synonym node_id = int

text \<open>
  \<open>nodes\<close> holds the ids of the \<^verbatim>\<open>Node\<close> records in list order. The NetworkX digraph is
  its node list and its weighted edges in insertion order (an association list with
  unique keys); the weight of an edge is a float (\<^verbatim>\<open>weight: float\<close>), and node and edge
  attributes other than the weight are opaque to the core.
\<close>

record problem =
  nodes :: "node_id list"
  graph_nodes :: "node_id list"
  graph_edges :: "((node_id \<times> node_id) \<times> pyfloat) list"

definition has_edge :: "problem \<Rightarrow> node_id \<Rightarrow> node_id \<Rightarrow> bool" where
  "has_edge p u v = (map_of (graph_edges p) (u, v) \<noteq> None)"

definition get_neighbors :: "problem \<Rightarrow> node_id \<Rightarrow> py_error + node_id list" where
  "get_neighbors p u =
     (if u \<in> set (graph_nodes p)
      then Inr (map (\<lambda>e. snd (fst e)) (filter (\<lambda>e. fst (fst e) = u) (graph_edges p)))
      else Inl NetworkXError)"

definition distance :: "problem \<Rightarrow> node_id \<Rightarrow> node_id \<Rightarrow> py_error + pyfloat" where
  "distance p u v =
     (case map_of (graph_edges p) (u, v) of
        None \<Rightarrow> Inl ValueError
      | Some w \<Rightarrow> Inr w)"

definition remove_edge :: "problem \<Rightarrow> node_id \<Rightarrow> node_id \<Rightarrow> problem" where
  "remove_edge p u v =
     (if has_edge p u v
      then p\<lparr>graph_edges := filter (\<lambda>e. fst e \<noteq> (u, v)) (graph_edges p)\<rparr>
      else p)"

subsection \<open>Candidate routes (\<^verbatim>\<open>models/solution.py\<close>)\<close>

text \<open>\<open>total_cost = None\<close> is Python's \<^verbatim>\<open>None\<close>: the cost is not computed yet.\<close>

record solution =
  routes :: "node_id list"
  total_cost :: "pyfloat option"
  meta :: "(string \<times> string) list"

subsection \<open>Route cost evaluator (\<^verbatim>\<open>tsp_total_cost\<close>)\<close>

text \<open>
  The loop \<^verbatim>\<open>for i in range(len(route) - 1)\<close> with the accumulator \<^verbatim>\<open>total\<close> (here \<open>tot\<close>),
  a float that starts at \<^verbatim>\<open>0.0\<close>; each \<^verbatim>\<open>total += \<dots>\<close> is a float addition. Only
  \<^verbatim>\<open>ValueError\<close> is caught; any other exception of \<^verbatim>\<open>distance\<close> would propagate.
\<close>

fun cost_loop :: "problem \<Rightarrow> node_id list \<Rightarrow> nat list \<Rightarrow> pyfloat \<Rightarrow> py_error + pyfloat" where
  "cost_loop p route [] tot = Inr tot"
| "cost_loop p route (i # rest) tot =
     (case distance p (route ! i) (route ! (i + 1)) of
        Inr w \<Rightarrow> cost_loop p route rest (fadd tot w)
      | Inl e \<Rightarrow>
          if e = ValueError then cost_loop p route rest (fadd tot (Fin 1000000000))
          else Inl e)"

definition tsp_total_cost :: "solution \<Rightarrow> problem \<Rightarrow> py_error + (solution \<times> pyfloat)" where
  "tsp_total_cost sol p =
     (case cost_loop p (routes sol) [0 ..< length (routes sol) - 1] (Fin 0) of
        Inl e \<Rightarrow> Inl e
      | Inr tot \<Rightarrow> Inr (sol\<lparr>total_cost := Some tot\<rparr>, tot))"

subsection \<open>Perturbation operators (\<^verbatim>\<open>core/neighbor.py\<close>)\<close>

definition tsp_2opt_neighbor ::
  "solution \<Rightarrow> problem \<Rightarrow> rng \<Rightarrow> py_error + (solution \<times> rng)" where
  "tsp_2opt_neighbor current_solution p g =
     (let route = routes current_solution; n = length route in
      if n < 4 then
        Inr (\<lparr>routes = route, total_cost = total_cost current_solution,
              meta = meta current_solution\<rparr>, g)
      else
        (case sample2 [1 ..< n - 1] g of
           Inl e \<Rightarrow> Inl e
         | Inr ((a, b), g') \<Rightarrow>
             (let i = min a b; j = max a b in
              Inr (\<lparr>routes = slice_assign route i j (rev (slice i j route)),
                    total_cost = None, meta = meta current_solution\<rparr>, g'))))"

definition quantum_jump_neighbor ::
  "solution \<Rightarrow> problem \<Rightarrow> pyfloat \<Rightarrow> rng \<Rightarrow> py_error + (solution \<times> rng)" where
  "quantum_jump_neighbor current_solution p jump_prob g =
     (let route = routes current_solution; n = length route in
      if n < 4 then tsp_2opt_neighbor current_solution p g
      else
        (case random_py g of
           (u, g1) \<Rightarrow>
             if fge u jump_prob then tsp_2opt_neighbor current_solution p g1
             else
               (case sample2 [1 ..< n - 1] g1 of
                  Inl e \<Rightarrow> Inl e
                | Inr ((a, b), g2) \<Rightarrow>
                    (let i = min a b; j = max a b in
                     (case shuffle (slice i j route) g2 of
                        (segment, g3) \<Rightarrow>
                          Inr (\<lparr>routes = slice_assign route i j segment,
                                total_cost = None, meta = meta current_solution\<rparr>, g3))))))"

subsection \<open>Agents (\<^verbatim>\<open>models/agent.py\<close>)\<close>

datatype agent_status = Active | Completed | Blocked

record agent =
  agent_id :: string
  start_node :: node_id
  current_node :: node_id
  goal_node :: node_id
  route :: "node_id list"
  status :: agent_status

definition agent_init :: "string \<Rightarrow> node_id \<Rightarrow> node_id \<Rightarrow> agent" where
  "agent_init aid start goal =
     \<lparr>agent_id = aid, start_node = start, current_node = start, goal_node = goal,
      route = [start], status = Active\<rparr>"

definition step_to :: "agent \<Rightarrow> node_id \<Rightarrow> agent" where
  "step_to a next_node =
     (let a1 = a\<lparr>current_node := next_node, route := route a @ [next_node]\<rparr> in
      if current_node a1 = goal_node a1 then a1\<lparr>status := Completed\<rparr> else a1)"

definition reset :: "agent \<Rightarrow> node_id \<Rightarrow> node_id \<Rightarrow> agent" where
  "reset a new_start new_goal =
     a\<lparr>start_node := new_start, current_node := new_start, goal_node := new_goal,
       route := [new_start], status := Active\<rparr>"

subsection \<open>Configuration (\<^verbatim>\<open>DynamicAnnealer.__init__\<close>)\<close>

text \<open>
  The per-tick mutation hook receives the tick index and may mutate the problem or raise.
  The seed is represented by the generator state it produces.
\<close>

record config =
  event_callback :: "(nat \<Rightarrow> problem \<Rightarrow> py_error + problem) option"
  max_tick :: int
  mini_iter :: int
  start_temp :: pyfloat
  cooling_rate :: pyfloat
  min_temp :: pyfloat
  quantum_jump_prob :: pyfloat

subsection \<open>Single-agent local annealer (\<^verbatim>\<open>DynamicAnnealer._local_sa\<close>)\<close>

text \<open>
  The Metropolis rule, \<^verbatim>\<open>math.exp((old_cost - new_cost) / (temperature + 1e-9))\<close>. The
  division raises \<^verbatim>\<open>ZeroDivisionError\<close> on a zero denominator and \<^verbatim>\<open>math.exp\<close> raises
  \<^verbatim>\<open>OverflowError\<close> on a large argument; both need a negative temperature.
\<close>

definition acceptance_probability ::
  "pyfloat \<Rightarrow> pyfloat \<Rightarrow> pyfloat \<Rightarrow> py_error + pyfloat" where
  "acceptance_probability old_cost new_cost temperature =
     (if flt new_cost old_cost then Inr (Fin 1)
      else
        (case fdiv (fsub old_cost new_cost)
                (fadd temperature (round_double (1 / 1000000000))) of
           Inl e \<Rightarrow> Inl e
         | Inr q \<Rightarrow> fexp q))"

text \<open>
  Steps 1 and 2 of \<^verbatim>\<open>_local_sa\<close>: shuffle the node ids, bring \<^verbatim>\<open>agent.current_node\<close> to
  the front (swap, or insert when absent) and close the cycle. \<^verbatim>\<open>route[0]\<close> raises
  \<^verbatim>\<open>IndexError\<close> on an empty node list.
\<close>

definition initial_route :: "problem \<Rightarrow> agent \<Rightarrow> rng \<Rightarrow> py_error + (node_id list \<times> rng)" where
  "initial_route p a g =
     (case shuffle (nodes p) g of
        (r, g') \<Rightarrow>
          (case r of
             [] \<Rightarrow> Inl IndexError
           | r0 # _ \<Rightarrow>
               (let r1 = (if r0 \<noteq> current_node a then
                            (case index_of r (current_node a) of
                               Some idx \<Rightarrow> r[0 := r ! idx, idx := r ! 0]
                             | None \<Rightarrow> current_node a # r)
                          else r);
                    r2 = (if last r1 \<noteq> current_node a then r1 @ [current_node a] else r1)
                in Inr (r2, g'))))"

text \<open>
  Step 4, the loop \<^verbatim>\<open>for _ in range(self.mini_iter)\<close>; the first argument counts the
  iterations that remain. The only candidate the loop keeps is \<^verbatim>\<open>best_solution\<close>.
\<close>

fun sa_loop ::
  "config \<Rightarrow> problem \<Rightarrow> nat \<Rightarrow> solution \<Rightarrow> pyfloat \<Rightarrow> pyfloat \<Rightarrow> rng \<Rightarrow>
   py_error + (solution \<times> rng)"
where
  "sa_loop c p 0 best_solution best_cost temperature g = Inr (best_solution, g)"
| "sa_loop c p (Suc k) best_solution best_cost temperature g =
     (case quantum_jump_neighbor best_solution p (quantum_jump_prob c) g of
        Inl e \<Rightarrow> Inl e
      | Inr (neighbor0, g1) \<Rightarrow>
          (case tsp_total_cost neighbor0 p of
             Inl e \<Rightarrow> Inl e
           | Inr (neighbor, neighbor_cost) \<Rightarrow>
               (case acceptance_probability best_cost neighbor_cost temperature of
                  Inl e \<Rightarrow> Inl e
                | Inr ap \<Rightarrow>
                    (case random_py g1 of
                       (u, g2) \<Rightarrow>
                         (let best_solution' = (if flt u ap then neighbor else best_solution);
                              best_cost' = (if flt u ap then neighbor_cost else best_cost);
                              temperature' = fmul temperature (cooling_rate c)
                          in if flt temperature' (min_temp c) then Inr (best_solution', g2)
                             else sa_loop c p k best_solution' best_cost' temperature' g2)))))"

definition local_sa :: "config \<Rightarrow> problem \<Rightarrow> agent \<Rightarrow> rng \<Rightarrow> py_error + (solution \<times> rng)" where
  "local_sa c p a g =
     (case initial_route p a g of
        Inl e \<Rightarrow> Inl e
      | Inr (r, g1) \<Rightarrow>
          (case tsp_total_cost \<lparr>routes = r, total_cost = None, meta = []\<rparr> p of
             Inl e \<Rightarrow> Inl e
           | Inr (best_solution, best_cost) \<Rightarrow>
               sa_loop c p (nat (mini_iter c)) best_solution best_cost (start_temp c) g1))"

subsection \<open>The generic annealer (\<^verbatim>\<open>Annealer.run\<close> in \<^verbatim>\<open>core/annealer.py\<close>)\<close>

text \<open>
  The callbacks draw from the module-level generator, so they take and return it here.
  \<^verbatim>\<open>cost_fn\<close> may write the cost to the candidate (as \<^verbatim>\<open>tsp_total_cost\<close> does), so it
  returns the candidate too. The schedule fields carry the suffix \<open>_a\<close>, their names being
  taken by the scheduler's configuration. This loop keeps \<^verbatim>\<open>current\<close> and \<^verbatim>\<open>best\<close> apart.
\<close>

record annealer =
  initial_solution_fn :: "problem \<Rightarrow> rng \<Rightarrow> py_error + (solution \<times> rng)"
  neighbor_fn :: "solution \<Rightarrow> problem \<Rightarrow> rng \<Rightarrow> py_error + (solution \<times> rng)"
  cost_fn :: "solution \<Rightarrow> problem \<Rightarrow> py_error + (solution \<times> pyfloat)"
  max_iter :: int
  start_temp_a :: pyfloat
  cooling_rate_a :: pyfloat
  min_temp_a :: pyfloat

fun annealer_loop ::
  "annealer \<Rightarrow> problem \<Rightarrow> nat \<Rightarrow> solution \<Rightarrow> pyfloat \<Rightarrow> solution \<Rightarrow> pyfloat \<Rightarrow> pyfloat \<Rightarrow>
   rng \<Rightarrow> py_error + (solution \<times> rng)"
where
  "annealer_loop an p 0 current current_cost best best_cost temperature g = Inr (best, g)"
| "annealer_loop an p (Suc k) current current_cost best best_cost temperature g =
     (case neighbor_fn an current p g of
        Inl e \<Rightarrow> Inl e
      | Inr (neighbor0, g1) \<Rightarrow>
          (case cost_fn an neighbor0 p of
             Inl e \<Rightarrow> Inl e
           | Inr (neighbor, neighbor_cost) \<Rightarrow>
               (case acceptance_probability current_cost neighbor_cost temperature of
                  Inl e \<Rightarrow> Inl e
                | Inr ap \<Rightarrow>
                    (case random_py g1 of
                       (u, g2) \<Rightarrow>
                         (let accepted = flt u ap;
                              current' = (if accepted then neighbor else current);
                              current_cost' = (if accepted then neighbor_cost else current_cost);
                              improved = (accepted \<and> flt neighbor_cost best_cost);
                              best' = (if improved then neighbor else best);
                              best_cost' = (if improved then neighbor_cost else best_cost);
                              temperature' = fmul temperature (cooling_rate_a an)
                          in if flt temperature' (min_temp_a an) then Inr (best', g2)
                             else annealer_loop an p k current' current_cost' best' best_cost'
                                    temperature' g2)))))"

definition annealer_run :: "annealer \<Rightarrow> problem \<Rightarrow> rng \<Rightarrow> py_error + (solution \<times> rng)" where
  "annealer_run an p g =
     (case initial_solution_fn an p g of
        Inl e \<Rightarrow> Inl e
      | Inr (initial, g1) \<Rightarrow>
          (case cost_fn an initial p of
             Inl e \<Rightarrow> Inl e
           | Inr (current, current_cost) \<Rightarrow>
               annealer_loop an p (nat (max_iter an)) current current_cost current current_cost
                 (start_temp_a an) g1))"

subsection \<open>Collision arbiter (\<^verbatim>\<open>DynamicAnnealer._detect_collisions\<close>)\<close>

text \<open>
  A Python dict is an association list with unique keys, in insertion order.
  \<^verbatim>\<open>reverse_map.setdefault(node, []).append(aid)\<close> appends to the group of \<open>node\<close>, which
  is created at the end of the dict when it is new.
\<close>

fun group_by_target ::
  "(string \<times> node_id) list \<Rightarrow> (node_id \<times> string list) list \<Rightarrow> (node_id \<times> string list) list"
where
  "group_by_target [] reverse_map = reverse_map"
| "group_by_target ((aid, node) # rest) reverse_map =
     group_by_target rest
       (AList.update node
          ((case map_of reverse_map node of None \<Rightarrow> [] | Some aids \<Rightarrow> aids) @ [aid])
          reverse_map)"

fun collect_collisions :: "(node_id \<times> string list) list \<Rightarrow> string list \<Rightarrow> string list" where
  "collect_collisions [] collisions = collisions"
| "collect_collisions ((node, aids) # rest) collisions =
     collect_collisions rest (if length aids > 1 then collisions @ aids else collisions)"

definition detect_collisions :: "(string \<times> node_id) list \<Rightarrow> string list" where
  "detect_collisions proposed_moves =
     collect_collisions (group_by_target proposed_moves []) []"

subsection \<open>Tick scheduler (\<^verbatim>\<open>DynamicAnnealer.run\<close>)\<close>

text \<open>
  What a run mutates: the shared problem, the agents in list order, the saved
  mini-solutions and the generator. \<^verbatim>\<open>proposed_moves\<close> is a dict: an association list in
  insertion order, where assigning to a present key keeps its place.
\<close>

record sched_state =
  sched_problem :: problem
  agents :: "agent list"
  agent_solutions :: "string \<rightharpoonup> solution"
  gen :: rng

text \<open>Step 1: the hook is called without any exception handler around it.\<close>

definition fire_event :: "config \<Rightarrow> nat \<Rightarrow> problem \<Rightarrow> py_error + problem" where
  "fire_event c tick p =
     (case event_callback c of
        None \<Rightarrow> Inr p
      | Some callback \<Rightarrow> callback tick p)"

text \<open>Step 2, the body of \<^verbatim>\<open>for agent in self.agents\<close> for one agent.\<close>

definition propose_agent ::
  "config \<Rightarrow> problem \<Rightarrow> agent \<Rightarrow> (string \<times> node_id) list \<Rightarrow> (string \<rightharpoonup> solution) \<Rightarrow> rng \<Rightarrow>
   py_error + (agent \<times> (string \<times> node_id) list \<times> (string \<rightharpoonup> solution) \<times> rng)"
where
  "propose_agent c p a proposed_moves sols g =
     (if status a \<noteq> Active then Inr (a, proposed_moves, sols, g)
      else if current_node a = goal_node a then
        Inr (a\<lparr>status := Completed\<rparr>, proposed_moves, sols, g)
      else
        (case local_sa c p a g of
           Inl e \<Rightarrow> Inl e
         | Inr (best_solution, g1) \<Rightarrow>
             (case index_of (routes best_solution) (current_node a) of
                None \<Rightarrow>
                  (case get_neighbors p (current_node a) of
                     Inl e \<Rightarrow> Inl e
                   | Inr neighbors \<Rightarrow>
                       if neighbors = [] then
                         Inr (a\<lparr>status := Blocked\<rparr>, proposed_moves, sols, g1)
                       else
                         (case choice_py neighbors g1 of
                            Inl e \<Rightarrow> Inl e
                          | Inr (next_node, g2) \<Rightarrow>
                              Inr (a, AList.update (agent_id a) next_node proposed_moves,
                                   sols, g2)))
              | Some current_idx \<Rightarrow>
                  (let next_idx = (current_idx + 1) mod length (routes best_solution);
                       next_node = routes best_solution ! next_idx
                   in Inr (a, AList.update (agent_id a) next_node proposed_moves,
                           sols(agent_id a \<mapsto> best_solution), g1)))))"

fun propose_moves ::
  "config \<Rightarrow> problem \<Rightarrow> agent list \<Rightarrow> (string \<times> node_id) list \<Rightarrow> (string \<rightharpoonup> solution) \<Rightarrow> rng \<Rightarrow>
   py_error + (agent list \<times> (string \<times> node_id) list \<times> (string \<rightharpoonup> solution) \<times> rng)"
where
  "propose_moves c p [] proposed_moves sols g = Inr ([], proposed_moves, sols, g)"
| "propose_moves c p (a # rest) proposed_moves sols g =
     (case propose_agent c p a proposed_moves sols g of
        Inl e \<Rightarrow> Inl e
      | Inr (a', pm1, sols1, g1) \<Rightarrow>
          (case propose_moves c p rest pm1 sols1 g1 of
             Inl e \<Rightarrow> Inl e
           | Inr (rest', pm2, sols2, g2) \<Rightarrow> Inr (a' # rest', pm2, sols2, g2)))"

text \<open>
  Step 3: \<^verbatim>\<open>del proposed_moves[aid]\<close> raises \<^verbatim>\<open>KeyError\<close> on a missing key, and
  \<^verbatim>\<open>next(a for a in self.agents if a.id == aid)\<close> raises \<^verbatim>\<open>StopIteration\<close> when no agent
  has that id; otherwise it is the first such agent.
\<close>

fun block_collisions ::
  "string list \<Rightarrow> agent list \<Rightarrow> (string \<times> node_id) list \<Rightarrow>
   py_error + (agent list \<times> (string \<times> node_id) list)"
where
  "block_collisions [] ags proposed_moves = Inr (ags, proposed_moves)"
| "block_collisions (aid # rest) ags proposed_moves =
     (if map_of proposed_moves aid = None then Inl KeyError
      else
        (case first_index (\<lambda>a. agent_id a = aid) ags of
           None \<Rightarrow> Inl StopIteration
         | Some k \<Rightarrow>
             block_collisions rest (ags[k := (ags ! k)\<lparr>status := Blocked\<rparr>])
               (AList.delete aid proposed_moves)))"

text \<open>Step 4: commit the remaining moves.\<close>

fun commit_moves :: "(string \<times> node_id) list \<Rightarrow> agent list \<Rightarrow> py_error + agent list" where
  "commit_moves [] ags = Inr ags"
| "commit_moves ((aid, next_node) # rest) ags =
     (case first_index (\<lambda>a. agent_id a = aid) ags of
        None \<Rightarrow> Inl StopIteration
      | Some k \<Rightarrow> commit_moves rest (ags[k := step_to (ags ! k) next_node]))"

text \<open>Step 5: unblock.\<close>

definition unblock :: "agent \<Rightarrow> agent" where
  "unblock a = (if status a = Blocked then a\<lparr>status := Active\<rparr> else a)"

text \<open>Steps 3 to 5, from the agents and the proposed moves that step 2 leaves.\<close>

definition resolve_moves ::
  "agent list \<Rightarrow> (string \<times> node_id) list \<Rightarrow> py_error + agent list" where
  "resolve_moves ags proposed_moves =
     (case block_collisions (detect_collisions proposed_moves) ags proposed_moves of
        Inl e \<Rightarrow> Inl e
      | Inr (ags2, pm2) \<Rightarrow>
          (case commit_moves pm2 ags2 of
             Inl e \<Rightarrow> Inl e
           | Inr ags3 \<Rightarrow> Inr (map unblock ags3)))"

text \<open>One iteration of \<^verbatim>\<open>for tick in range(self.max_tick)\<close>, steps 1 to 5.\<close>

definition tick_body :: "config \<Rightarrow> nat \<Rightarrow> sched_state \<Rightarrow> py_error + sched_state" where
  "tick_body c tick s =
     (case fire_event c tick (sched_problem s) of
        Inl e \<Rightarrow> Inl e
      | Inr p \<Rightarrow>
          (case propose_moves c p (agents s) [] (agent_solutions s) (gen s) of
             Inl e \<Rightarrow> Inl e
           | Inr (ags1, proposed_moves, sols, g) \<Rightarrow>
               (case resolve_moves ags1 proposed_moves of
                  Inl e \<Rightarrow> Inl e
                | Inr ags4 \<Rightarrow>
                    Inr \<lparr>sched_problem = p, agents = ags4, agent_solutions = sols,
                         gen = g\<rparr>)))"

text \<open>
  \<^verbatim>\<open>run\<close> returns nothing; what it leaves is the final state. \<open>outcome\<close> tells whether the
  loop ended by the \<^verbatim>\<open>break\<close> of step 6 or by running out of ticks.
\<close>

datatype run_outcome = Converged | Exhausted

record run_result =
  final :: sched_state
  ticks_run :: nat
  outcome :: run_outcome

text \<open>
  The tick loop with step 6, the convergence check and its \<^verbatim>\<open>break\<close>. \<open>ticks_run\<close>
  counts the executed loop bodies.
\<close>

function run_loop :: "config \<Rightarrow> nat \<Rightarrow> sched_state \<Rightarrow> py_error + run_result" where
  "run_loop c tick s =
     (if int tick < max_tick c then
        (case tick_body c tick s of
           Inl e \<Rightarrow> Inl e
         | Inr s' \<Rightarrow>
             if list_all (\<lambda>a. status a = Completed) (agents s')
             then Inr \<lparr>final = s', ticks_run = Suc tick, outcome = Converged\<rparr>
             else run_loop c (Suc tick) s')
      else Inr \<lparr>final = s, ticks_run = tick, outcome = Exhausted\<rparr>)"
  by pat_completeness auto
termination
  by (relation "measure (\<lambda>(c, tick, s). nat (max_tick c) - tick)") auto

declare run_loop.simps [simp del]

text \<open>
  \<^verbatim>\<open>run\<close>: the loop from tick 0, then the final message, which reads the loop variable
  \<^verbatim>\<open>tick\<close>; the variable is unbound when the loop body never ran.
\<close>

definition run :: "config \<Rightarrow> sched_state \<Rightarrow> py_error + run_result" where
  "run c s =
     (case run_loop c 0 s of
        Inl e \<Rightarrow> Inl e
      | Inr r \<Rightarrow> if ticks_run r = 0 then Inl UnboundLocalError else Inr r)"

subsection \<open>The runner's mutation hook (\<^verbatim>\<open>on_tick\<close> in \<^verbatim>\<open>services/dynamic_runner.py\<close>)\<close>

text \<open>
  At tick 10 the hook removes the edge \<open>1 \<rightarrow> 2\<close>; its body is wrapped in a handler of its
  own, and \<open>remove_edge\<close> raises nothing, so the hook never raises.
\<close>

definition on_tick :: "nat \<Rightarrow> problem \<Rightarrow> py_error + problem" where
  "on_tick tick p = (if tick = 10 then Inr (remove_edge p 1 2) else Inr p)"

subsection \<open>Specification-side definitions\<close>

text \<open>
  The term of the consecutive pair \<open>(r ! i, r ! (i + 1))\<close> of a route: the weight of the
  directed edge when it exists, the penalty \<open>10\<^sup>9\<close> when it does not.
\<close>

definition edge_term :: "problem \<Rightarrow> node_id list \<Rightarrow> nat \<Rightarrow> pyfloat" where
  "edge_term p r i =
     (case map_of (graph_edges p) (r ! i, r ! (i + 1)) of
        Some w \<Rightarrow> w
      | None \<Rightarrow> Fin 1000000000)"

text \<open>
  The terms of a route added up from \<open>0.0\<close>, left to right, each addition rounded to a
  double.
\<close>

definition accumulated_cost :: "problem \<Rightarrow> node_id list \<Rightarrow> pyfloat" where
  "accumulated_cost p r = foldl fadd (Fin 0) (map (edge_term p r) [0 ..< length r - 1])"

text \<open>
  The cost the specification gives for a route, in its own words the exact sum of the
  terms: the sum over the reals of the numbers that the terms denote (\<open>fval\<close>; it is
  meant for finite terms and takes an infinity or a NaN as \<open>0\<close>). \<open>exact_prefix p r k\<close> is
  the exact sum of the first \<open>k\<close> terms.
\<close>

fun fval :: "pyfloat \<Rightarrow> real" where
  "fval (Fin x) = x"
| "fval PInf = 0"
| "fval NInf = 0"
| "fval NaN = 0"

fun is_fin :: "pyfloat \<Rightarrow> bool" where
  "is_fin (Fin x) = True"
| "is_fin PInf = False"
| "is_fin NInf = False"
| "is_fin NaN = False"

definition exact_prefix :: "problem \<Rightarrow> node_id list \<Rightarrow> nat \<Rightarrow> real" where
  "exact_prefix p r k = (\<Sum>i<k. fval (edge_term p r i))"

definition spec_total_cost :: "problem \<Rightarrow> node_id list \<Rightarrow> real" where
  "spec_total_cost p r = exact_prefix p r (length r - 1)"

text \<open>
  A real number is a double when rounding leaves it alone. No addition of the cost loop
  rounds when every term is finite and every exact partial sum is a double.
\<close>

definition is_double :: "real \<Rightarrow> bool" where
  "is_double x \<longleftrightarrow> round_double x = Fin x"

definition no_rounding :: "problem \<Rightarrow> node_id list \<Rightarrow> bool" where
  "no_rounding p r \<longleftrightarrow>
     list_all (\<lambda>i. is_fin (edge_term p r i)) [0 ..< length r - 1]
     \<and> list_all (\<lambda>k. is_double (exact_prefix p r k)) [0 ..< Suc (length r - 1)]"

text \<open>
  Sign conditions on floats, for the Metropolis rule: a temperature that is not negative
  (or is NaN), a value that is not positive (or is NaN), a value that is positive (or is
  NaN).
\<close>

fun temp_ok :: "pyfloat \<Rightarrow> bool" where
  "temp_ok (Fin x) = (0 \<le> x)"
| "temp_ok PInf = True"
| "temp_ok NInf = False"
| "temp_ok NaN = True"

fun sinks :: "pyfloat \<Rightarrow> bool" where
  "sinks (Fin x) = (x \<le> 0)"
| "sinks PInf = False"
| "sinks NInf = True"
| "sinks NaN = True"

fun rises :: "pyfloat \<Rightarrow> bool" where
  "rises (Fin x) = (0 < x)"
| "rises PInf = True"
| "rises NInf = False"
| "rises NaN = True"

text \<open>The agents that propose node \<open>n\<close> in a proposed move set, in dict order.\<close>

definition proposers :: "(string \<times> node_id) list \<Rightarrow> node_id \<Rightarrow> string list" where
  "proposers pm n = map fst (filter (\<lambda>e. snd e = n) pm)"

text \<open>The agent invariant of the data model.\<close>

definition agent_inv :: "agent \<Rightarrow> bool" where
  "agent_inv a \<longleftrightarrow> route a \<noteq> [] \<and> hd (route a) = start_node a \<and> last (route a) = current_node a"


text \<open>Step 6 of the tick loop: every agent is \<open>Completed\<close>.\<close>

definition all_completed :: "agent list \<Rightarrow> bool" where
  "all_completed ags = list_all (\<lambda>a. status a = Completed) ags"

text \<open>
  The state in which a run from \<open>s0\<close> starts tick \<open>t\<close>, when it gets there: no earlier
  tick raised or ended the run by convergence.
\<close>

fun state_before_tick :: "config \<Rightarrow> sched_state \<Rightarrow> nat \<Rightarrow> sched_state option" where
  "state_before_tick c s0 0 = Some s0"
| "state_before_tick c s0 (Suc t) =
     (case state_before_tick c s0 t of
        None \<Rightarrow> None
      | Some s \<Rightarrow>
          if int t < max_tick c then
            (case tick_body c t s of
               Inl e \<Rightarrow> None
             | Inr s' \<Rightarrow> if all_completed (agents s') then None else Some s')
          else None)"

text \<open>
  The positions, in \<^verbatim>\<open>self.agents\<close>, of the agents that step 3 of a tick sets to
  \<open>Blocked\<close>: for each colliding id, the first agent with that id.
\<close>

definition arbiter_blocked :: "config \<Rightarrow> nat \<Rightarrow> sched_state \<Rightarrow> nat list" where
  "arbiter_blocked c tick s =
     (case fire_event c tick (sched_problem s) of
        Inl e \<Rightarrow> []
      | Inr p \<Rightarrow>
          (case propose_moves c p (agents s) [] (agent_solutions s) (gen s) of
             Inl e \<Rightarrow> []
           | Inr (ags1, proposed_moves, sols, g) \<Rightarrow>
               List.map_filter (\<lambda>aid. first_index (\<lambda>a. agent_id a = aid) ags1)
                 (detect_collisions proposed_moves)))"

subsection \<open>Example inputs\<close>

text \<open>The all-zero stream of raw draws, read from position \<open>n\<close>.\<close>

definition zero_at :: "nat \<Rightarrow> rng" where
  "zero_at n = \<lparr>raw = (\<lambda>k. 0), pos = n\<rparr>"

definition empty_problem :: problem where
  "empty_problem = \<lparr>nodes = [], graph_nodes = [], graph_edges = []\<rparr>"

definition example_tour :: solution where
  "example_tour = \<lparr>routes = [1, 2, 3, 4, 1], total_cost = None, meta = []\<rparr>"

definition short_tour :: solution where
  "short_tour = \<lparr>routes = [1, 2, 1], total_cost = Some (Fin 2000000000), meta = []\<rparr>"

definition example_moves :: "(string \<times> node_id) list" where
  "example_moves = [(''A'', 2), (''B'', 3), (''C'', 2)]"

text \<open>
  Four nodes for the local annealer, with the edges of the tours \<open>[1, 3, 4, 2, 1]\<close> and
  \<open>[1, 4, 3, 2, 1]\<close>: every edge weighs \<open>1\<close> but \<open>1 \<rightarrow> 4\<close>, which weighs \<open>2\<close>.
\<close>

definition sa_problem :: problem where
  "sa_problem =
     \<lparr>nodes = [1, 2, 3, 4], graph_nodes = [1, 2, 3, 4],
      graph_edges = [((1, 3), Fin 1), ((3, 4), Fin 1), ((4, 2), Fin 1), ((2, 1), Fin 1),
                     ((1, 4), Fin 2), ((4, 3), Fin 1), ((3, 2), Fin 1)]\<rparr>"

definition sa_agent :: agent where
  "sa_agent = agent_init ''A1'' 1 2"

text \<open>
  The schedule of the scheduler's defaults (\<^verbatim>\<open>100.0\<close>, \<^verbatim>\<open>0.9\<close>, \<^verbatim>\<open>1e-2\<close>, \<^verbatim>\<open>0.05\<close>), with one
  annealing step.
\<close>

definition sa_config :: config where
  "sa_config =
     \<lparr>event_callback = None, max_tick = 1, mini_iter = 1, start_temp = Fin 100,
      cooling_rate = round_double (9 / 10), min_temp = round_double (1 / 100),
      quantum_jump_prob = round_double (1 / 20)\<rparr>"

text \<open>
  A stream for that search: the draws at positions 3 and 6 give \<^verbatim>\<open>random.random() = 0.5\<close>,
  all other draws are \<open>0\<close>.
\<close>

definition sa_draws :: "nat \<Rightarrow> nat" where
  "sa_draws k = (if k = 3 \<or> k = 6 then 2 ^ 52 else 0)"

definition sa_rng :: "nat \<Rightarrow> rng" where
  "sa_rng n = \<lparr>raw = sa_draws, pos = n\<rparr>"

text \<open>
  The generic annealer set up for the same search: the same initial tour, neighbour
  operator, cost function and schedule.
\<close>

definition sa_annealer :: annealer where
  "sa_annealer =
     \<lparr>initial_solution_fn =
        (\<lambda>p g. case initial_route p sa_agent g of
                  Inl e \<Rightarrow> Inl e
                | Inr (r, g') \<Rightarrow> Inr (\<lparr>routes = r, total_cost = None, meta = []\<rparr>, g')),
      neighbor_fn = (\<lambda>s p g. quantum_jump_neighbor s p (round_double (1 / 20)) g),
      cost_fn = tsp_total_cost,
      max_iter = 1, start_temp_a = Fin 100, cooling_rate_a = round_double (9 / 10),
      min_temp_a = round_double (1 / 100)\<rparr>"

text \<open>
  Three nodes on a line \<open>1 \<rightarrow> 2 \<rightarrow> 3\<close>, the runner's hook and a budget of two ticks; two
  agents that both head for node \<open>3\<close>, and a single agent.
\<close>

definition line_problem :: problem where
  "line_problem =
     \<lparr>nodes = [1, 2, 3], graph_nodes = [1, 2, 3],
      graph_edges = [((1, 2), Fin 1), ((2, 3), Fin 1)]\<rparr>"

definition run_config :: config where
  "run_config =
     \<lparr>event_callback = Some on_tick, max_tick = 2, mini_iter = 1, start_temp = Fin 100,
      cooling_rate = round_double (9 / 10), min_temp = round_double (1 / 100),
      quantum_jump_prob = round_double (1 / 10)\<rparr>"

definition duel_agents :: "agent list" where
  "duel_agents = [agent_init ''A1'' 1 3, agent_init ''A2'' 2 3]"

definition duel_state :: sched_state where
  "duel_state =
     \<lparr>sched_problem = line_problem, agents = duel_agents, agent_solutions = Map.empty,
      gen = zero_at 0\<rparr>"

definition tour1 :: solution where
  "tour1 = \<lparr>routes = [1, 3, 2, 1], total_cost = Some (Fin 3000000000), meta = []\<rparr>"

definition tour2 :: solution where
  "tour2 = \<lparr>routes = [2, 3, 1, 2], total_cost = Some (Fin 1000000002), meta = []\<rparr>"

definition solo_state :: sched_state where
  "solo_state =
     \<lparr>sched_problem = line_problem, agents = [agent_init ''A1'' 1 3],
      agent_solutions = Map.empty, gen = zero_at 0\<rparr>"

text \<open>
  Three nodes on a line whose edges weigh \<^verbatim>\<open>0.1\<close> and \<^verbatim>\<open>0.2\<close>, and the route along them.
\<close>

definition tenths_problem :: problem where
  "tenths_problem =
     \<lparr>nodes = [1, 2, 3], graph_nodes = [1, 2, 3],
      graph_edges = [((1, 2), round_double (1 / 10)), ((2, 3), round_double (2 / 10))]\<rparr>"

definition tenths_route :: solution where
  "tenths_route = \<lparr>routes = [1, 2, 3], total_cost = None, meta = []\<rparr>"

text \<open>A hook that raises at tick 1, with a budget of five ticks.\<close>

definition raising_hook :: "nat \<Rightarrow> problem \<Rightarrow> py_error + problem" where
  "raising_hook tick p = (if tick = 1 then Inl RuntimeError else Inr p)"

definition raising_config :: config where
  "raising_config = run_config\<lparr>event_callback := Some raising_hook, max_tick := 5\<rparr>"

section \<open>Properties\<close>

subsection \<open>Float rounding\<close>

lemma rhe_int [simp]: "round_half_even (of_int n) = n"
  by (simp add: round_half_even_def)

lemma rhe_zero [simp]: "round_half_even 0 = 0"
  using rhe_int [of 0] by simp

lemma rhe_bounds: "q - 1 / 2 \<le> of_int (round_half_even q)" "of_int (round_half_even q) \<le> q + 1 / 2"
  unfolding round_half_even_def Let_def by (auto; linarith)+

lemma rhe_mono_int: "of_int n \<le> q \<Longrightarrow> n \<le> round_half_even q"
  unfolding round_half_even_def Let_def by (auto simp: le_floor_iff; linarith)

lemma binade_bounds:
  assumes "2 powi (- 1022) \<le> \<bar>x\<bar>"
  shows "2 powi (binade x) \<le> \<bar>x\<bar>" "\<bar>x\<bar> < 2 powi (binade x + 1)"
proof -
  have pos: "0 < \<bar>x\<bar>" using assms zero_less_power_int [of "2::real" "- 1022"] by linarith
  have b: "binade x = \<lfloor>log 2 \<bar>x\<bar>\<rfloor>" using assms by (simp add: binade_def)
  from floor_log_eq_powr_iff [of "\<bar>x\<bar>" 2 "binade x"] pos b
  have "2 powr (real_of_int (binade x)) \<le> \<bar>x\<bar> \<and> \<bar>x\<bar> < 2 powr (real_of_int (binade x) + 1)" by simp
  moreover have "2 powr (real_of_int (binade x) + 1) = 2 powr (real_of_int (binade x + 1))" by simp
  ultimately show "2 powi (binade x) \<le> \<bar>x\<bar>" "\<bar>x\<bar> < 2 powi (binade x + 1)"
    by (simp_all only: powr_real_of_int' [of 2, simplified])
qed

lemma binade_eq:
  assumes "2 powi e \<le> \<bar>x\<bar>" "\<bar>x\<bar> < 2 powi (e + 1)" "- 1022 \<le> e"
  shows "binade x = e"
proof -
  have "(2::real) powi (- 1022) \<le> 2 powi e" using assms(3) by (intro power_int_increasing) simp_all
  with assms(1) have n: "2 powi (- 1022) \<le> \<bar>x\<bar>" by linarith
  then have pos: "0 < \<bar>x\<bar>" using zero_less_power_int [of "2::real" "- 1022"] by linarith
  have "2 powr (real_of_int e) \<le> \<bar>x\<bar> \<and> \<bar>x\<bar> < 2 powr (real_of_int e + 1)"
    using assms(1,2) powr_real_of_int' [of 2 e] powr_real_of_int' [of 2 "e + 1"] by simp
  with floor_log_eq_powr_iff [of "\<bar>x\<bar>" 2 e] pos have "\<lfloor>log 2 \<bar>x\<bar>\<rfloor> = e" by simp
  with n show ?thesis by (simp add: binade_def)
qed

lemma binade_ge: "- 1022 \<le> binade x"
proof (cases "\<bar>x\<bar> < 2 powi (- 1022)")
  case True
  then show ?thesis by (simp add: binade_def)
next
  case False
  then have n: "2 powi (- 1022) \<le> \<bar>x\<bar>" by simp
  show ?thesis
  proof (rule ccontr)
    assume "\<not> - 1022 \<le> binade x"
    then have "binade x + 1 \<le> - 1022" by simp
    then have "(2::real) powi (binade x + 1) \<le> 2 powi (- 1022)"
      by (intro power_int_increasing) simp_all
    with binade_bounds(2) [OF n] n show False by linarith
  qed
qed

lemma ulp_pos [simp]: "0 < ulp x"
  by (simp add: ulp_def)

lemma ulp_nonneg [simp]: "0 \<le> ulp x"
  using ulp_pos [of x] by linarith

lemma ulp_nonzero [simp]: "ulp x \<noteq> 0"
  using ulp_pos [of x] by linarith

lemma ulp_ge_min: "2 powi (- 1074) \<le> ulp x"
  unfolding ulp_def using binade_ge [of x] by (intro power_int_increasing) simp_all

lemma ulp_subnormal: "\<bar>x\<bar> < 2 powi (- 1022) \<Longrightarrow> ulp x = 2 powi (- 1074)"
  by (simp add: ulp_def binade_def del: power_int_numeral_neg_numeral)

lemma ulp_normal:
  assumes "2 powi (- 1022) \<le> \<bar>x\<bar>"
  shows "ulp x \<le> \<bar>x\<bar> * 2 powi (- 52)"
proof -
  have "ulp x = 2 powi (binade x) * 2 powi (- 52)"
    unfolding ulp_def using power_int_add [of "2::real" "binade x" "- 52"] by simp
  also have "\<dots> \<le> \<bar>x\<bar> * 2 powi (- 52)"
    using binade_bounds(1) [OF assms] by (intro mult_right_mono) simp_all
  finally show ?thesis .
qed

lemma ulp_le_abs:
  assumes "2 powi (- 1074) \<le> \<bar>x\<bar>"
  shows "ulp x \<le> \<bar>x\<bar>"
proof (cases "\<bar>x\<bar> < 2 powi (- 1022)")
  case True
  with assms show ?thesis by (simp add: ulp_subnormal)
next
  case False
  then have "ulp x \<le> \<bar>x\<bar> * 2 powi (- 52)" by (intro ulp_normal) simp
  also have "\<dots> \<le> \<bar>x\<bar> * 1" by (intro mult_left_mono) simp_all
  finally show ?thesis by simp
qed

lemma rne_error: "\<bar>rne x - x\<bar> \<le> ulp x / 2"
proof -
  let ?q = "x / ulp x"
  have "\<bar>of_int (round_half_even ?q) - ?q\<bar> \<le> 1 / 2"
    using rhe_bounds [of ?q] by linarith
  then have "\<bar>of_int (round_half_even ?q) - ?q\<bar> * ulp x \<le> 1 / 2 * ulp x"
    by (intro mult_right_mono) simp_all
  moreover have "\<bar>of_int (round_half_even ?q) - ?q\<bar> * ulp x = \<bar>rne x - x\<bar>"
  proof -
    have "\<bar>of_int (round_half_even ?q) - ?q\<bar> * ulp x
        = \<bar>(of_int (round_half_even ?q) - ?q) * ulp x\<bar>"
      by (simp add: abs_mult)
    also have "(of_int (round_half_even ?q) - ?q) * ulp x = rne x - x"
      by (simp add: rne_def left_diff_distrib)
    finally show ?thesis .
  qed
  ultimately show ?thesis by simp
qed

lemma rne_nonneg: "0 \<le> x \<Longrightarrow> 0 \<le> rne x"
proof -
  assume "0 \<le> x"
  then have "of_int 0 \<le> x / ulp x" by simp
  then have "0 \<le> round_half_even (x / ulp x)" by (rule rhe_mono_int)
  then show ?thesis by (simp add: rne_def)
qed

lemma rhe_uminus: "round_half_even (- q) = - round_half_even q"
proof -
  define f where "f = \<lfloor>q\<rfloor>"
  have b: "of_int f \<le> q" "q < of_int f + 1" by (simp_all add: f_def)
  show ?thesis
  proof (cases "q = of_int f")
    case True
    then have "- q = of_int (- f)" by simp
    then have "round_half_even (- q) = - f" by (simp only: rhe_int)
    moreover have "round_half_even q = f" using True rhe_int [of f] by simp
    ultimately show ?thesis by simp
  next
    case False
    with b have lt: "of_int f < q" by simp
    have "of_int (- f - 1) \<le> - q" "- q < of_int (- f - 1) + 1" using b lt by simp_all
    then have fl: "\<lfloor>- q\<rfloor> = - f - 1" by (rule floor_unique)
    have d: "q - of_int f < 1 / 2 \<or> q - of_int f = 1 / 2 \<or> 1 / 2 < q - of_int f" by linarith
    have r: "round_half_even q =
        (if q - of_int f < 1 / 2 then f else if 1 / 2 < q - of_int f then f + 1
         else if even f then f else f + 1)"
      by (simp add: round_half_even_def f_def)
    have r': "round_half_even (- q) =
        (if - q - of_int (- f - 1) < 1 / 2 then - f - 1
         else if 1 / 2 < - q - of_int (- f - 1) then - f - 1 + 1
         else if even (- f - 1) then - f - 1 else - f - 1 + 1)"
      unfolding round_half_even_def Let_def fl ..
    from d show ?thesis
    proof (elim disjE)
      assume "q - of_int f < 1 / 2"
      then show ?thesis unfolding r r' by simp
    next
      assume "q - of_int f = 1 / 2"
      then have "q = of_int f + 1 / 2" by simp
      then show ?thesis unfolding r r' by simp
    next
      assume "1 / 2 < q - of_int f"
      then show ?thesis unfolding r r' by simp
    qed
  qed
qed

lemma ulp_uminus [simp]: "ulp (- x) = ulp x"
  by (simp add: ulp_def binade_def)

lemma rne_uminus: "rne (- x) = - rne x"
  by (simp add: rne_def rhe_uminus)

lemma rne_nonpos: "x \<le> 0 \<Longrightarrow> rne x \<le> 0"
  using rne_nonneg [of "- x"] by (simp add: rne_uminus)

lemma rne_zero [simp]: "rne 0 = 0"
  by (simp add: rne_def)

lemma rne_ge_ulp:
  assumes "ulp x \<le> x"
  shows "ulp x \<le> rne x"
proof -
  have "of_int 1 \<le> x / ulp x" using assms by (simp add: le_divide_eq)
  then have "1 \<le> round_half_even (x / ulp x)" by (rule rhe_mono_int)
  then have "1 \<le> (of_int (round_half_even (x / ulp x)) :: real)" by simp
  then have "1 * ulp x \<le> of_int (round_half_even (x / ulp x)) * ulp x"
    by (intro mult_right_mono) simp_all
  then show ?thesis by (simp add: rne_def)
qed

lemma rne_exact: "x = of_int n * ulp x \<Longrightarrow> rne x = x"
proof -
  assume a: "x = of_int n * ulp x"
  then have "x / ulp x = of_int n" by (simp add: field_simps)
  then show ?thesis using a by (simp add: rne_def)
qed


lemma rne_abs_le:
  assumes "\<bar>x\<bar> \<le> 2 ^ 1023"
  shows "\<bar>rne x\<bar> < 2 ^ 1024"
proof -
  have u: "ulp x \<le> 2 ^ 1023"
  proof (cases "2 powi (- 1074) \<le> \<bar>x\<bar>")
    case True
    from ulp_le_abs [OF this] assms show ?thesis by linarith
  next
    case False
    then have "\<bar>x\<bar> < 2 powi (- 1022)"
      using power_int_increasing [of "- 1074" "- 1022" "2::real"] by simp
    then have "ulp x = 2 powi (- 1074)" by (rule ulp_subnormal)
    also have "\<dots> \<le> 2 powi 1023" by (intro power_int_increasing) simp_all
    also have "\<dots> = 2 ^ 1023" by (simp del: power_numeral)
    finally show ?thesis .
  qed
  have "\<bar>rne x\<bar> \<le> \<bar>x\<bar> + ulp x / 2" using rne_error [of x] by linarith
  also have "\<dots> \<le> 2 ^ 1023 + 2 ^ 1023 / 2" using assms u by linarith
  also have "\<dots> < 2 ^ 1023 + (2 ^ 1023 :: real)" by (simp del: power_numeral)
  also have "\<dots> = 2 * 2 ^ 1023" by (simp del: power_numeral)
  also have "\<dots> = 2 ^ Suc 1023" by (simp only: power_Suc)
  also have "Suc 1023 = 1024" by simp
  finally show ?thesis .
qed

lemma round_double_fin:
  assumes "\<bar>x\<bar> \<le> 2 ^ 1023"
  shows "round_double x = Fin (rne x)"
proof -
  from rne_abs_le [OF assms] have "rne x < 2 ^ 1024" "- (2 ^ 1024) < rne x" by linarith+
  then show ?thesis by (simp add: round_double_def Let_def del: power_numeral)
qed


lemma round_double_zero [simp]: "round_double 0 = Fin 0"
  using round_double_fin [of 0] by simp

lemma round_double_eval:
  assumes "2 powi e \<le> \<bar>x\<bar>" and "\<bar>x\<bar> < 2 powi (e + 1)" and "- 1022 \<le> e" and "e \<le> 1022"
    and "round_half_even (x * 2 powi (52 - e)) = n"
  shows "round_double x = Fin (of_int n * 2 powi (e - 52))"
proof -
  have b: "binade x = e" using assms(1,2,3) by (rule binade_eq)
  have "(2::real) powi (52 - e) = inverse (2 powi (e - 52))"
    using power_int_minus [of "2::real" "e - 52"] by simp
  then have "x / ulp x = x * 2 powi (52 - e)"
    by (simp add: ulp_def b divide_inverse)
  then have r: "rne x = of_int n * 2 powi (e - 52)"
    using assms(5) by (simp add: rne_def ulp_def b)
  have "(2::real) powi (e + 1) \<le> 2 powi 1023"
    using assms(4) by (intro power_int_increasing) simp_all
  also have "\<dots> = 2 ^ 1023" by (simp del: power_numeral)
  finally have "\<bar>x\<bar> \<le> 2 ^ 1023" using assms(2) by linarith
  from round_double_fin [OF this] r show ?thesis by simp
qed

lemma round_double_int:
  assumes "\<bar>n\<bar> < 2 ^ 53"
  shows "round_double (of_int n) = Fin (of_int n)"
proof (cases "n = 0")
  case True
  then show ?thesis by simp
next
  case False
  let ?x = "real_of_int n"
  have one: "1 \<le> \<bar>?x\<bar>" using False by (simp flip: of_int_abs)
  have "(2::real) powi (- 1022) \<le> 2 powi 0" by (intro power_int_increasing) simp_all
  with one have n: "2 powi (- 1022) \<le> \<bar>?x\<bar>" by simp
  note B = binade_bounds [OF n]
  have b0: "0 \<le> binade ?x"
  proof (rule ccontr)
    assume "\<not> 0 \<le> binade ?x"
    then have "binade ?x + 1 \<le> 0" by simp
    then have "(2::real) powi (binade ?x + 1) \<le> 2 powi 0"
      by (intro power_int_increasing) simp_all
    with B(2) one show False by simp
  qed
  have "\<bar>?x\<bar> < 2 ^ 53" using assms by (metis of_int_abs of_int_less_numeral_power_cancel_iff)
  then have lt: "\<bar>?x\<bar> < 2 powi 53" by simp
  have b52: "binade ?x \<le> 52"
  proof (rule ccontr)
    assume "\<not> binade ?x \<le> 52"
    then have "53 \<le> binade ?x" by simp
    then have "(2::real) powi 53 \<le> 2 powi (binade ?x)"
      by (intro power_int_increasing) simp_all
    with B(1) lt show False by linarith
  qed
  define k where "k = nat (52 - binade ?x)"
  have u: "ulp ?x = inverse (2 ^ k)"
  proof -
    have "binade ?x - 52 = - int k" using b52 by (simp add: k_def)
    then have "ulp ?x = 2 powi (- int k)" by (simp add: ulp_def)
    then show ?thesis by (simp add: power_int_minus)
  qed
  have "?x = of_int (n * 2 ^ k) * ulp ?x" by (simp add: u)
  then have r: "rne ?x = ?x" by (rule rne_exact)
  have "(2::real) ^ 53 \<le> 2 ^ 1023" by (intro power_increasing) simp_all
  with \<open>\<bar>?x\<bar> < 2 ^ 53\<close> have "\<bar>?x\<bar> \<le> 2 ^ 1023" by linarith
  from round_double_fin [OF this] r show ?thesis by simp
qed

lemma round_double_numeral [simp]:
  "(numeral k :: int) < 2 ^ 53 \<Longrightarrow> round_double (numeral k) = Fin (numeral k)"
  using round_double_int [of "numeral k"] by simp

lemma round_double_neg_numeral [simp]:
  "(numeral k :: int) < 2 ^ 53 \<Longrightarrow> round_double (- numeral k) = Fin (- numeral k)"
  using round_double_int [of "- numeral k"] by simp

lemma round_double_one [simp]: "round_double 1 = Fin 1"
  using round_double_int [of 1] by simp


lemma round_double_nonpos:
  assumes "x \<le> 0"
  shows "round_double x = NInf \<or> (\<exists>y. round_double x = Fin y \<and> y \<le> 0)"
proof -
  have "rne x \<le> 0" using assms by (rule rne_nonpos)
  moreover have "(0::real) < 2 ^ 1024" by (simp del: power_numeral)
  ultimately have "\<not> 2 ^ 1024 \<le> rne x" "rne x \<le> 0" by linarith+
  then show ?thesis by (simp add: round_double_def Let_def del: power_numeral)
qed

lemma round_double_pos:
  assumes "2 powi (- 1074) \<le> x"
  shows "round_double x = PInf \<or> (\<exists>y. round_double x = Fin y \<and> 0 < y)"
proof -
  have p: "(0::real) < 2 powi (- 1074)" by (simp del: power_int_numeral_neg_numeral)
  with assms have x: "0 \<le> x" "2 powi (- 1074) \<le> \<bar>x\<bar>" by linarith+
  from ulp_le_abs [OF x(2)] x(1) have "ulp x \<le> x" by simp
  from rne_ge_ulp [OF this] ulp_pos [of x] have "0 < rne x" by linarith
  moreover have "(0::real) < 2 ^ 1024" by (simp del: power_numeral)
  ultimately show ?thesis by (simp add: round_double_def Let_def del: power_numeral)
qed

text \<open>The doubles that the decimal literals of the examples denote.\<close>

lemma double_tenth: "round_double (1 / 10) = Fin (7205759403792794 / 2 ^ 56)"
proof -
  have "round_double (1 / 10) = Fin (of_int 7205759403792794 * 2 powi (- 4 - 52))"
    by (rule round_double_eval) (simp_all add: round_half_even_def)
  then show ?thesis by simp
qed

lemma double_fifth: "round_double (1 / 5) = Fin (7205759403792794 / 2 ^ 55)"
proof -
  have "round_double (1 / 5) = Fin (of_int 7205759403792794 * 2 powi (- 3 - 52))"
    by (rule round_double_eval) (simp_all add: round_half_even_def)
  then show ?thesis by simp
qed

lemma double_twentieth: "round_double (1 / 20) = Fin (7205759403792794 / 2 ^ 57)"
proof -
  have "round_double (1 / 20) = Fin (of_int 7205759403792794 * 2 powi (- 5 - 52))"
    by (rule round_double_eval) (simp_all add: round_half_even_def)
  then show ?thesis by simp
qed


lemma tenth_is_double:
  "round_double (7205759403792794 / 2 ^ 56) = Fin (7205759403792794 / 2 ^ 56)"
proof -
  have "round_half_even ((7205759403792794 / 2 ^ 56) * 2 powi (52 - (- 4))) = 7205759403792794"
    by (simp add: round_half_even_def)
  from round_double_eval [of "- 4" "7205759403792794 / 2 ^ 56", OF _ _ _ _ this] show ?thesis
    by simp
qed

lemma tenth_plus_fifth:
  "round_double (7205759403792794 / 2 ^ 56 + 7205759403792794 / 2 ^ 55)
     = Fin (5404319552844596 / 2 ^ 54)"
proof -
  have "round_half_even
          ((7205759403792794 / 2 ^ 56 + 7205759403792794 / 2 ^ 55) * 2 powi (52 - (- 2)))
      = 5404319552844596"
    by (simp add: round_half_even_def)
  from round_double_eval
         [of "- 2" "7205759403792794 / 2 ^ 56 + 7205759403792794 / 2 ^ 55", OF _ _ _ _ this]
  show ?thesis by simp
qed

lemma double_nano: "round_double (1 / 1000000000) = Fin (4835703278458517 / 2 ^ 82)"
proof -
  have "round_double (1 / 1000000000) = Fin (of_int 4835703278458517 * 2 powi (- 30 - 52))"
    by (rule round_double_eval) (simp_all add: round_half_even_def)
  then show ?thesis by simp
qed



lemma denominator_rises:
  assumes "temp_ok t"
  shows "rises (fadd t (round_double (1 / 1000000000)))"
proof (cases t)
  case (Fin x)
  with assms have x: "0 \<le> x" by simp
  have "(2::real) powi (- 1074) \<le> 2 powi (- 82)" by (intro power_int_increasing) simp_all
  also have "\<dots> \<le> 4835703278458517 / 2 ^ 82" by simp
  finally have "2 powi (- 1074) \<le> x + 4835703278458517 / 2 ^ 82" using x by linarith
  from round_double_pos [OF this] Fin show ?thesis by (auto simp: double_nano)
next
  case PInf
  then show ?thesis by (simp add: double_nano)
next
  case NInf
  with assms show ?thesis by simp
next
  case NaN
  then show ?thesis by (simp add: double_nano)
qed

lemma numerator_sinks: "\<not> flt new_cost old_cost \<Longrightarrow> sinks (fsub old_cost new_cost)"
proof (cases old_cost; cases new_cost)
  fix a b assume "\<not> flt new_cost old_cost" "old_cost = Fin a" "new_cost = Fin b"
  then have "a + - b \<le> 0" by simp
  from round_double_nonpos [OF this] \<open>old_cost = Fin a\<close> \<open>new_cost = Fin b\<close>
  show "sinks (fsub old_cost new_cost)" by (auto simp: fsub_def)
qed (auto simp: fsub_def)

lemma quotient_sinks:
  assumes "sinks a" and "rises b"
  shows "\<exists>q. fdiv a b = Inr q \<and> sinks q"
proof (cases b)
  case (Fin y)
  with assms(2) have y: "0 < y" by simp
  show ?thesis
  proof (cases a)
    case a: (Fin x)
    with assms(1) y have "x / y \<le> 0" by (simp add: divide_le_0_iff)
    from round_double_nonpos [OF this] a Fin y show ?thesis by auto
  next
    case PInf
    with assms(1) show ?thesis by simp
  next
    case NInf
    with Fin y show ?thesis by simp
  next
    case NaN
    with Fin y show ?thesis by simp
  qed
next
  case PInf
  with assms(1) show ?thesis by (cases a) simp_all
next
  case NInf
  with assms(2) show ?thesis by simp
next
  case NaN
  then show ?thesis by simp
qed

lemma fexp_sinks:
  assumes "sinks q"
  shows "\<exists>ap. fexp q = Inr ap"
proof (cases q)
  case (Fin z)
  with assms have "z \<le> 0" by simp
  then have "exp z \<le> 1" by simp
  moreover have "0 < exp z" by simp
  moreover have "(1::real) \<le> 2 ^ 1023" by (simp del: power_numeral)
  ultimately have "\<bar>exp z\<bar> \<le> 2 ^ 1023" by linarith
  from round_double_fin [OF this] Fin show ?thesis by simp
next
  case PInf
  with assms show ?thesis by simp
next
  case NInf
  then show ?thesis by simp
next
  case NaN
  then show ?thesis by simp
qed

lemma acceptance_probability_total:
  assumes "temp_ok temperature"
  shows "\<exists>ap. acceptance_probability old_cost new_cost temperature = Inr ap"
proof (cases "flt new_cost old_cost")
  case True
  then show ?thesis by (simp add: acceptance_probability_def)
next
  case False
  from quotient_sinks [OF numerator_sinks [OF False] denominator_rises [OF assms]]
  obtain q where q: "fdiv (fsub old_cost new_cost) (fadd temperature (round_double (1 / 1000000000))) = Inr q"
    and s: "sinks q" by blast
  from fexp_sinks [OF s] obtain ap where "fexp q = Inr ap" by blast
  with q False show ?thesis by (simp add: acceptance_probability_def)
qed

lemma round_double_minus_one [simp]: "round_double (- 1) = Fin (- 1)"
  using round_double_int [of "- 1"] by simp

lemma denominator_100:
  "fadd (Fin 100) (round_double (1 / 1000000000)) = Fin (7036874417836769 / 2 ^ 46)"
proof -
  have "round_half_even ((100 + 4835703278458517 / 2 ^ 82) * 2 powi (52 - 6)) = 7036874417836769"
    by (simp add: round_half_even_def)
  from round_double_eval [of 6 "100 + 4835703278458517 / 2 ^ 82", OF _ _ _ _ this] show ?thesis
    by (simp add: double_nano)
qed

lemma accept_equal: "acceptance_probability (Fin a) (Fin a) (Fin 100) = Inr (Fin 1)"
  by (simp add: acceptance_probability_def fsub_def denominator_100)

lemma round_double_near_one:
  assumes "3 / 4 \<le> y" and "y \<le> 1"
  shows "\<exists>a. round_double y = Fin a \<and> 1 / 2 < a"
proof -
  have "(2::real) powi (- 1022) \<le> 2 powi (- 1)" by (intro power_int_increasing) simp_all
  with assms(1) have n: "2 powi (- 1022) \<le> \<bar>y\<bar>" by simp
  have "\<bar>y\<bar> \<le> 1" using assms by linarith
  then have "\<bar>y\<bar> * 2 powi (- 52) \<le> 1 * 2 powi (- 52)"
    by (intro mult_right_mono) simp_all
  also have "\<dots> \<le> 1 / 4" by simp
  finally have u: "ulp y \<le> 1 / 4" using ulp_normal [OF n] by linarith
  from rne_error [of y] u assms(1) have "1 / 2 < rne y" by linarith
  moreover have "\<bar>y\<bar> \<le> 2 ^ 1023"
  proof -
    have "(1::real) \<le> 2 ^ 1023" by (simp del: power_numeral)
    with assms show ?thesis by linarith
  qed
  ultimately show ?thesis using round_double_fin [of y] by simp
qed

lemma accept_worse:
  "\<exists>ap. acceptance_probability (Fin 4) (Fin 5) (Fin 100) = Inr ap \<and> flt (Fin (1 / 2)) ap"
proof -
  let ?q = "- 5764607522976589 / 2 ^ 59 :: real"
  have "round_half_even ((- 1 / (7036874417836769 / 2 ^ 46)) * 2 powi (52 - (- 7))) = - 5764607522976589"
    by (simp add: round_half_even_def)
  from round_double_eval [of "- 7" "- 1 / (7036874417836769 / 2 ^ 46)", OF _ _ _ _ this]
  have q: "round_double (- 1 / (7036874417836769 / 2 ^ 46)) = Fin ?q" by simp
  have "3 / 4 \<le> 1 + ?q" by simp
  also have "\<dots> \<le> exp ?q" by (rule exp_ge_add_one_self)
  finally have lo: "3 / 4 \<le> exp ?q" .
  have hi: "exp ?q \<le> 1" by simp
  from round_double_near_one [OF lo hi] obtain a where a: "round_double (exp ?q) = Fin a" "1 / 2 < a"
    by blast
  have "acceptance_probability (Fin 4) (Fin 5) (Fin 100) = Inr (Fin a)"
    using q a(1) by (simp add: acceptance_probability_def fsub_def denominator_100)
  with a(2) show ?thesis by simp
qed

lemma flt_trans: "flt a b \<Longrightarrow> flt b c \<Longrightarrow> flt a c"
  by (cases a; cases b; cases c) simp_all

subsection \<open>Randomness and slices\<close>

lemma randbelow_less: "0 < n \<Longrightarrow> randbelow n g = (j, g') \<Longrightarrow> j < n"
  by (auto simp: randbelow_def)

lemma shuffle_from_mset:
  "i < length x \<Longrightarrow> mset (fst (shuffle_from i x g)) = mset x"
proof (induction i arbitrary: x g)
  case 0
  then show ?case by simp
next
  case (Suc i)
  obtain j g' where rb: "randbelow (Suc i + 1) g = (j, g')" by (cases "randbelow (Suc i + 1) g")
  then have "j < Suc i + 1" using randbelow_less [of "Suc i + 1"] by simp
  with Suc.prems have jl: "j < length x" by simp
  have "mset (x[Suc i := x ! j, j := x ! Suc i]) = mset x"
    using mset_swap [OF jl Suc.prems] .
  moreover have "i < length (x[Suc i := x ! j, j := x ! Suc i])" using Suc.prems by simp
  ultimately show ?case using Suc.IH rb by simp
qed

lemma shuffle_mset: "mset (fst (shuffle x g)) = mset x"
  by (cases "x = []") (simp_all add: shuffle_def shuffle_from_mset)

lemma shuffle_length: "length (fst (shuffle x g)) = length x"
  using shuffle_mset [of x g] by (metis size_mset)

lemma sample2_distinct:
  assumes "distinct population" and "2 \<le> length population"
  shows "\<exists>a b g'. sample2 population g = Inr ((a, b), g') \<and> a \<in> set population
           \<and> b \<in> set population \<and> a \<noteq> b"
proof -
  let ?n = "length population"
  obtain j1 g1 where r1: "randbelow ?n g = (j1, g1)" by (cases "randbelow ?n g")
  obtain j2 g2 where r2: "randbelow (?n - 1) g1 = (j2, g2)" by (cases "randbelow (?n - 1) g1")
  from assms(2) have "0 < ?n" "0 < ?n - 1" by linarith+
  then have j1: "j1 < ?n" and j2: "j2 < ?n - 1"
    using randbelow_less r1 r2 by blast+
  let ?pool = "population[j1 := population ! (?n - 1)]"
  have eq: "sample2 population g = Inr ((population ! j1, ?pool ! j2), g2)"
    using assms r1 r2 by (simp add: sample2_def Let_def)
  have b_in: "?pool ! j2 \<in> set population"
    using j1 j2 by (cases "j2 = j1") (simp_all add: nth_list_update)
  have neq: "population ! j1 \<noteq> ?pool ! j2"
  proof (cases "j2 = j1")
    case True
    then have "?pool ! j2 = population ! (?n - 1)" using j1 by simp
    moreover have "j1 \<noteq> ?n - 1" using True j2 by simp
    ultimately show ?thesis using assms(1) j1 j2
      by (simp add: nth_eq_iff_index_eq)
  next
    case False
    then show ?thesis using assms(1) j1 j2 by (simp add: nth_eq_iff_index_eq)
  qed
  show ?thesis using eq b_in neq j1 by auto
qed

lemma sample2_interior:
  assumes "4 \<le> n"
  shows "\<exists>a b g'. sample2 [1 ..< n - 1] g = Inr ((a, b), g') \<and> 1 \<le> min a b \<and> min a b < max a b
           \<and> max a b \<le> n - 2"
proof -
  have "distinct [1 ..< n - 1]" "2 \<le> length [1 ..< n - 1]" using assms by simp_all
  from sample2_distinct [OF this, of g] obtain a b g' where
    "sample2 [1 ..< n - 1] g = Inr ((a, b), g')" "a \<in> set [1 ..< n - 1]" "b \<in> set [1 ..< n - 1]" "a \<noteq> b"
    by blast
  then show ?thesis by (auto simp: min_def max_def)
qed

text \<open>Every ordered pair of two different positions is drawn by some stream.\<close>

lemma sample2_reaches:
  assumes "i < length xs" and "j < length xs" and "i \<noteq> j"
  shows "\<exists>g g'. sample2 xs g = Inr ((xs ! i, xs ! j), g')"
proof -
  let ?n = "length xs"
  define j' where "j' = (if j = ?n - 1 then i else j)"
  define g where "g = \<lparr>raw = (\<lambda>k. if k = 0 then i else j'), pos = 0\<rparr>"
  have n2: "\<not> ?n < 2" using assms by linarith
  have j'lt: "j' < ?n - 1" using assms by (auto simp: j'_def)
  have r1: "randbelow ?n g = (i, g\<lparr>pos := Suc 0\<rparr>)"
    using assms(1) by (simp add: randbelow_def g_def)
  have r2: "randbelow (?n - 1) (g\<lparr>pos := Suc 0\<rparr>) = (j', g\<lparr>pos := Suc (Suc 0)\<rparr>)"
    using j'lt by (simp add: randbelow_def g_def)
  have "xs[i := xs ! (?n - 1)] ! j' = xs ! j"
    using assms j'lt by (auto simp: j'_def nth_list_update)
  then have "sample2 xs g = Inr ((xs ! i, xs ! j), g\<lparr>pos := Suc (Suc 0)\<rparr>)"
    using n2 r1 r2 by (simp add: sample2_def Let_def)
  then show ?thesis by blast
qed

lemma slice_assign_mset:
  assumes "i \<le> j" and "mset seg = mset (slice i j xs)"
  shows "mset (slice_assign xs i j seg) = mset xs"
proof -
  have "drop j xs = drop (j - i) (drop i xs)" using assms(1) by simp
  then have "slice i j xs @ drop j xs = drop i xs"
    unfolding slice_def by (metis append_take_drop_id)
  then have "mset (slice i j xs) + mset (drop j xs) = mset (drop i xs)"
    by (metis mset_append)
  moreover have "mset (take i xs) + mset (drop i xs) = mset xs"
    by (metis mset_append append_take_drop_id)
  ultimately show ?thesis using assms by (simp add: slice_assign_def max_def)
qed

lemma slice_assign_hd:
  assumes "1 \<le> i" and "xs \<noteq> []"
  shows "hd (slice_assign xs i j seg) = hd xs"
  using assms by (cases xs; cases i) (simp_all add: slice_assign_def)

lemma slice_assign_last:
  assumes "i \<le> j" and "j < length xs"
  shows "last (slice_assign xs i j seg) = last xs"
  using assms by (simp add: slice_assign_def max_def last_drop)

lemma slice_assign_length:
  assumes "i \<le> j" and "j \<le> length xs" and "length seg = j - i"
  shows "length (slice_assign xs i j seg) = length xs"
  using assms by (simp add: slice_assign_def max_def)

lemma slice_length: "j \<le> length xs \<Longrightarrow> length (slice i j xs) = j - i"
  by (simp add: slice_def)

lemma shuffle_from_numeral:
  "shuffle_from (numeral k) x g =
     (case randbelow (numeral k + 1) g of
        (j, g') \<Rightarrow> shuffle_from (pred_numeral k) (x[numeral k := x ! j, j := x ! numeral k]) g')"
  by (simp add: numeral_eq_Suc)

lemma first_index_Some:
  "first_index P xs = Some k \<Longrightarrow> k < length xs \<and> P (xs ! k) \<and> (\<forall>j<k. \<not> P (xs ! j))"
proof (induction xs arbitrary: k)
  case Nil
  then show ?case by simp
next
  case (Cons x xs)
  show ?case
  proof (cases "P x")
    case True
    with Cons.prems show ?thesis by simp
  next
    case False
    with Cons.prems obtain k' where k': "first_index P xs = Some k'" "k = Suc k'"
      by auto
    from Cons.IH [OF k'(1)] False k'(2) show ?thesis
      by (auto simp: nth_Cons split: nat.splits)
  qed
qed



lemma first_index_map: "first_index (\<lambda>a. f a = v) xs = first_index (\<lambda>x. x = v) (map f xs)"
  by (induction xs) auto

lemma index_of_hd: "xs \<noteq> [] \<Longrightarrow> index_of xs (hd xs) = Some 0"
  by (cases xs) (simp_all add: index_of_def)

lemma swap_to_front:
  "xs \<noteq> [] \<Longrightarrow> idx \<noteq> 0 \<Longrightarrow> xs[0 := c, idx := d] \<noteq> [] \<and> hd (xs[0 := c, idx := d]) = c"
  by (cases xs; cases idx) simp_all

subsection \<open>Route cost evaluator\<close>

lemma cost_loop_foldl:
  "cost_loop p r idxs tot = Inr (foldl fadd tot (map (edge_term p r) idxs))"
  by (induction idxs arbitrary: tot)
     (simp_all add: distance_def edge_term_def split: option.splits)

lemma tsp_total_cost_eq:
  "tsp_total_cost sol p =
     Inr (sol\<lparr>total_cost := Some (accumulated_cost p (routes sol))\<rparr>,
          accumulated_cost p (routes sol))"
  by (simp add: tsp_total_cost_def cost_loop_foldl accumulated_cost_def)

lemma exact_prefix_Suc:
  "exact_prefix p r (Suc k) = exact_prefix p r k + fval (edge_term p r k)"
  by (simp add: exact_prefix_def)

lemma accumulated_prefix:
  assumes fin: "\<forall>i<n. is_fin (edge_term p r i)"
    and dbl: "\<forall>k\<le>n. is_double (exact_prefix p r k)"
  shows "k \<le> n \<Longrightarrow>
         foldl fadd (Fin 0) (map (edge_term p r) [0 ..< k]) = Fin (exact_prefix p r k)"
proof (induction k)
  case 0
  then show ?case by (simp add: exact_prefix_def)
next
  case (Suc k)
  from Suc.prems fin have "is_fin (edge_term p r k)" by simp
  then obtain w where w: "edge_term p r k = Fin w" by (cases "edge_term p r k") simp_all
  from Suc.prems dbl have "is_double (exact_prefix p r (Suc k))" by simp
  then have "round_double (exact_prefix p r k + w) = Fin (exact_prefix p r k + w)"
    by (simp add: is_double_def exact_prefix_Suc w)
  with Suc w show ?case by (simp add: exact_prefix_Suc)
qed

lemma no_rounding_exact:
  assumes "no_rounding p r"
  shows "accumulated_cost p r = Fin (spec_total_cost p r)"
proof -
  let ?n = "length r - 1"
  from assms have "\<forall>i<?n. is_fin (edge_term p r i)"
    by (simp add: no_rounding_def list_all_iff)
  moreover from assms have "\<forall>k\<in>set [0 ..< Suc ?n]. is_double (exact_prefix p r k)"
    by (simp add: no_rounding_def list_all_iff del: upt_Suc)
  then have "\<forall>k\<le>?n. is_double (exact_prefix p r k)"
    by (simp add: less_Suc_eq_le del: upt_Suc)
  ultimately show ?thesis using accumulated_prefix [of ?n p r ?n]
    by (simp add: accumulated_cost_def spec_total_cost_def)
qed

lemma tenths_terms:
  "edge_term tenths_problem [1, 2, 3] 0 = Fin (7205759403792794 / 2 ^ 56)"
  "edge_term tenths_problem [1, 2, 3] (Suc 0) = Fin (7205759403792794 / 2 ^ 55)"
  by (simp_all add: edge_term_def tenths_problem_def double_tenth double_fifth)

lemma tenths_accumulated:
  "accumulated_cost tenths_problem [1, 2, 3] = Fin (5404319552844596 / 2 ^ 54)"
proof -
  have "accumulated_cost tenths_problem [1, 2, 3]
      = fadd (fadd (Fin 0) (Fin (7205759403792794 / 2 ^ 56))) (Fin (7205759403792794 / 2 ^ 55))"
    by (simp add: accumulated_cost_def tenths_terms upt_rec)
  also have "fadd (Fin 0) (Fin (7205759403792794 / 2 ^ 56)) = Fin (7205759403792794 / 2 ^ 56)"
    using tenth_is_double by simp
  also have "fadd (Fin (7205759403792794 / 2 ^ 56)) (Fin (7205759403792794 / 2 ^ 55))
      = Fin (5404319552844596 / 2 ^ 54)"
    using tenth_plus_fifth by simp
  finally show ?thesis .
qed

lemma tenths_exact: "spec_total_cost tenths_problem [1, 2, 3] = 21617278211378382 / 2 ^ 56"
  by (simp add: spec_total_cost_def exact_prefix_def tenths_terms lessThan_Suc)

lemma sa_tour_no_rounding: "no_rounding sa_problem [1, 3, 4, 2, 1]"
  by (simp add: no_rounding_def exact_prefix_def edge_term_def sa_problem_def is_double_def
      upt_rec lessThan_Suc eval_nat_numeral)

text \<open>
  Claim C3, as amended. For every route and every graph, \<open>tsp_total_cost\<close> raises nothing
  and returns the terms of the consecutive pairs of the route (the edge weight where the
  directed edge exists, the penalty \<open>10\<^sup>9\<close> where it does not) added up from \<open>0.0\<close> from
  left to right in double precision, each addition rounded to the nearest double; the
  same value is written to the candidate's \<open>total_cost\<close> field. That value is the exact
  sum of the terms whenever no addition rounds, that is, when every term is finite and
  every exact partial sum is a double.
\<close>

theorem tsp_total_cost_accumulates:
  "tsp_total_cost sol p =
     Inr (sol\<lparr>total_cost := Some (accumulated_cost p (routes sol))\<rparr>,
          accumulated_cost p (routes sol))
   \<and> (no_rounding p (routes sol) \<longrightarrow>
        accumulated_cost p (routes sol) = Fin (spec_total_cost p (routes sol)))"
  by (simp add: tsp_total_cost_eq no_rounding_exact)

theorem tsp_total_cost_accumulates_witness:
  "no_rounding sa_problem [1, 3, 4, 2, 1]
   \<and> spec_total_cost sa_problem [1, 3, 4, 2, 1] = 4
   \<and> tsp_total_cost \<lparr>routes = [1, 3, 4, 2, 1], total_cost = None, meta = []\<rparr> sa_problem
       = Inr (\<lparr>routes = [1, 3, 4, 2, 1], total_cost = Some (Fin 4), meta = []\<rparr>, Fin 4)"
proof -
  have e: "spec_total_cost sa_problem [1, 3, 4, 2, 1] = 4"
    by (simp add: spec_total_cost_def exact_prefix_def edge_term_def sa_problem_def
        lessThan_Suc eval_nat_numeral)
  from tsp_total_cost_accumulates
         [of "\<lparr>routes = [1, 3, 4, 2, 1], total_cost = None, meta = []\<rparr>" sa_problem]
       sa_tour_no_rounding e
  show ?thesis by simp
qed

text \<open>
  Claim C3 as stated fails: on the route \<open>[1, 2, 3]\<close> along edges that weigh \<^verbatim>\<open>0.1\<close> and
  \<^verbatim>\<open>0.2\<close>, \<open>tsp_total_cost\<close> returns \<^verbatim>\<open>0.30000000000000004\<close>, the double
  \<open>5404319552844596 / 2\<^sup>5\<^sup>4\<close>, which is not the sum of the two weights,
  \<open>21617278211378382 / 2\<^sup>5\<^sup>6\<close>: the second addition rounds.
\<close>

theorem tenths_cost_is_rounded:
  "edge_term tenths_problem (routes tenths_route) 0 = Fin (7205759403792794 / 2 ^ 56)
   \<and> edge_term tenths_problem (routes tenths_route) 1 = Fin (7205759403792794 / 2 ^ 55)
   \<and> spec_total_cost tenths_problem (routes tenths_route) = 21617278211378382 / 2 ^ 56
   \<and> tsp_total_cost tenths_route tenths_problem
       = Inr (tenths_route\<lparr>total_cost := Some (Fin (5404319552844596 / 2 ^ 54))\<rparr>,
              Fin (5404319552844596 / 2 ^ 54))
   \<and> tsp_total_cost tenths_route tenths_problem
       \<noteq> Inr (tenths_route\<lparr>total_cost :=
                  Some (Fin (spec_total_cost tenths_problem (routes tenths_route)))\<rparr>,
                Fin (spec_total_cost tenths_problem (routes tenths_route)))"
  using tenths_terms
  by (simp add: tsp_total_cost_eq tenths_accumulated tenths_exact tenths_route_def)

subsection \<open>Perturbation operators\<close>

lemma two_opt_long:
  assumes "4 \<le> length (routes cur)"
  shows "\<exists>s' g'. tsp_2opt_neighbor cur p g = Inr (s', g')
           \<and> mset (routes s') = mset (routes cur)
           \<and> hd (routes s') = hd (routes cur)
           \<and> last (routes s') = last (routes cur)"
proof -
  let ?r = "routes cur"
  from sample2_interior [OF assms, of g] obtain a b g' where
    s: "sample2 [1 ..< length ?r - 1] g = Inr ((a, b), g')"
    and i1: "1 \<le> min a b" and ij: "min a b < max a b" and jn: "max a b \<le> length ?r - 2"
    by blast
  let ?i = "min a b" and ?j = "max a b"
  let ?r' = "slice_assign ?r ?i ?j (rev (slice ?i ?j ?r))"
  have ne: "?r \<noteq> []" using assms by auto
  have "mset ?r' = mset ?r" using ij by (intro slice_assign_mset) simp_all
  moreover have "hd ?r' = hd ?r" using i1 ne by (rule slice_assign_hd)
  moreover have "last ?r' = last ?r" using ij jn assms by (intro slice_assign_last) linarith+
  moreover have "tsp_2opt_neighbor cur p g =
      Inr (\<lparr>routes = ?r', total_cost = None, meta = meta cur\<rparr>, g')"
    using assms s by (simp add: tsp_2opt_neighbor_def Let_def)
  ultimately show ?thesis by simp
qed

lemma quantum_jump_long:
  assumes "4 \<le> length (routes cur)"
  shows "\<exists>s' g'. quantum_jump_neighbor cur p jump_prob g = Inr (s', g')
           \<and> mset (routes s') = mset (routes cur)
           \<and> hd (routes s') = hd (routes cur)
           \<and> last (routes s') = last (routes cur)"
proof -
  let ?r = "routes cur"
  obtain u g1 where u: "random_py g = (u, g1)" by (cases "random_py g")
  show ?thesis
  proof (cases "fge u jump_prob")
    case True
    then have "quantum_jump_neighbor cur p jump_prob g = tsp_2opt_neighbor cur p g1"
      using assms u by (simp add: quantum_jump_neighbor_def Let_def)
    then show ?thesis using two_opt_long [OF assms, of p g1] by simp
  next
    case False
    from sample2_interior [OF assms, of g1] obtain a b g2 where
      s: "sample2 [1 ..< length ?r - 1] g1 = Inr ((a, b), g2)"
      and i1: "1 \<le> min a b" and ij: "min a b < max a b" and jn: "max a b \<le> length ?r - 2"
      by blast
    let ?i = "min a b" and ?j = "max a b"
    obtain seg g3 where sh: "shuffle (slice ?i ?j ?r) g2 = (seg, g3)"
      by (cases "shuffle (slice ?i ?j ?r) g2")
    then have seg: "mset seg = mset (slice ?i ?j ?r)"
      using shuffle_mset [of "slice ?i ?j ?r" g2] by simp
    let ?r' = "slice_assign ?r ?i ?j seg"
    have ne: "?r \<noteq> []" using assms by auto
    have "mset ?r' = mset ?r" using ij seg by (intro slice_assign_mset) simp_all
    moreover have "hd ?r' = hd ?r" using i1 ne by (rule slice_assign_hd)
    moreover have "last ?r' = last ?r" using ij jn assms by (intro slice_assign_last) linarith+
    moreover have "quantum_jump_neighbor cur p jump_prob g =
        Inr (\<lparr>routes = ?r', total_cost = None, meta = meta cur\<rparr>, g3)"
      using assms u False s sh by (simp add: quantum_jump_neighbor_def Let_def)
    ultimately show ?thesis by simp
  qed
qed

text \<open>
  Claim C5. On a route of length at least 4, \<open>tsp_2opt_neighbor\<close> and
  \<open>quantum_jump_neighbor\<close> both return normally, and the route they return is a
  permutation of the input route (same multiset of node ids) with the same first and the
  same last element.
\<close>

theorem perturbation_permutes_route:
  assumes "4 \<le> length (routes cur)"
  shows "(\<exists>s' g'. tsp_2opt_neighbor cur p g = Inr (s', g')
            \<and> mset (routes s') = mset (routes cur)
            \<and> hd (routes s') = hd (routes cur)
            \<and> last (routes s') = last (routes cur))
       \<and> (\<exists>s' g'. quantum_jump_neighbor cur p jump_prob g = Inr (s', g')
            \<and> mset (routes s') = mset (routes cur)
            \<and> hd (routes s') = hd (routes cur)
            \<and> last (routes s') = last (routes cur))"
  using two_opt_long [OF assms] quantum_jump_long [OF assms] by blast

theorem perturbation_permutes_route_witness:
  "4 \<le> length (routes example_tour)
   \<and> (\<exists>s' g'. tsp_2opt_neighbor example_tour empty_problem (zero_at 0) = Inr (s', g')
         \<and> routes s' = [1, 3, 2, 4, 1])
   \<and> (\<exists>s' g'. quantum_jump_neighbor example_tour empty_problem (round_double (1 / 20)) (zero_at 0)
           = Inr (s', g')
         \<and> mset (routes s') = mset (routes example_tour)
         \<and> hd (routes s') = hd (routes example_tour)
         \<and> last (routes s') = last (routes example_tour))"
proof -
  have h: "4 \<le> length (routes example_tour)" by (simp add: example_tour_def)
  have "tsp_2opt_neighbor example_tour empty_problem (zero_at 0)
          = Inr (\<lparr>routes = [1, 3, 2, 4, 1], total_cost = None, meta = []\<rparr>, zero_at 2)"
    by (simp add: tsp_2opt_neighbor_def sample2_def randbelow_def zero_at_def slice_def
        slice_assign_def example_tour_def Let_def)
  then have "\<exists>s' g'. tsp_2opt_neighbor example_tour empty_problem (zero_at 0) = Inr (s', g')
         \<and> routes s' = [1, 3, 2, 4, 1]"
    by simp
  with h perturbation_permutes_route [OF h, of empty_problem "zero_at 0" "round_double (1 / 20)"]
  show ?thesis
    by blast
qed

lemma two_opt_short:
  "length (routes cur) < 4 \<Longrightarrow>
   tsp_2opt_neighbor cur p g =
     Inr (\<lparr>routes = routes cur, total_cost = total_cost cur, meta = meta cur\<rparr>, g)"
  by (simp add: tsp_2opt_neighbor_def Let_def)

lemma quantum_jump_short:
  "length (routes cur) < 4 \<Longrightarrow>
   quantum_jump_neighbor cur p jump_prob g =
     Inr (\<lparr>routes = routes cur, total_cost = total_cost cur, meta = meta cur\<rparr>, g)"
  by (simp add: quantum_jump_neighbor_def two_opt_short Let_def)

text \<open>
  Claim C9 fails on the code. Both operators are documented to return a candidate with
  \<^verbatim>\<open>cost=None\<close>, and on a route of length at least 4 they do: the evaluated tour
  \<open>[1, 2, 3, 4, 1]\<close> comes back with an unknown cost. On a route of length below 4 the
  early return of \<open>tsp_2opt_neighbor\<close> passes the cost of its input on instead: the
  3-element route \<open>[1, 2, 1]\<close>, evaluated to \<open>2 \<cdot> 10\<^sup>9\<close> on the graph without edges, comes
  back from both operators with that cost, not with an unknown one.
\<close>

theorem short_route_cost_not_reset:
  "total_cost short_tour = Some (Fin 2000000000)
   \<and> tsp_2opt_neighbor short_tour empty_problem (zero_at 0) = Inr (short_tour, zero_at 0)
   \<and> quantum_jump_neighbor short_tour empty_problem (round_double (1 / 20)) (zero_at 0)
       = Inr (short_tour, zero_at 0)
   \<and> tsp_2opt_neighbor (example_tour\<lparr>total_cost := Some (Fin 4000000000)\<rparr>) empty_problem
         (zero_at 0)
       = Inr (\<lparr>routes = [1, 3, 2, 4, 1], total_cost = None, meta = []\<rparr>, zero_at 2)"
  by (simp add: quantum_jump_neighbor_def tsp_2opt_neighbor_def short_tour_def example_tour_def
      sample2_def randbelow_def zero_at_def slice_def slice_assign_def Let_def)

subsection \<open>Collision arbiter\<close>

lemma proposers_Cons:
  "proposers ((a, m) # pm) n = (if m = n then a # proposers pm n else proposers pm n)"
  by (simp add: proposers_def)

lemma set_proposers: "a \<in> set (proposers pm n) \<longleftrightarrow> (a, n) \<in> set pm"
  by (force simp: proposers_def)

lemma distinct_proposers: "distinct (map fst pm) \<Longrightarrow> distinct (proposers pm n)"
  by (simp add: proposers_def distinct_map_filter)

lemma group_by_target_map_of:
  "map_of (group_by_target pm rm) n =
     (if proposers pm n = [] then map_of rm n
      else Some ((case map_of rm n of None \<Rightarrow> [] | Some aids \<Rightarrow> aids) @ proposers pm n))"
proof (induction pm arbitrary: rm)
  case Nil
  then show ?case by (simp add: proposers_def)
next
  case (Cons e pm)
  obtain a m where e: "e = (a, m)" by (cases e)
  show ?case
    unfolding e by (simp add: Cons.IH update_conv' proposers_Cons split: option.splits)
qed

lemma group_by_target_distinct:
  "distinct (map fst rm) \<Longrightarrow> distinct (map fst (group_by_target pm rm))"
proof (induction pm arbitrary: rm)
  case Nil
  then show ?case by simp
next
  case (Cons e pm)
  obtain a m where e: "e = (a, m)" by (cases e)
  show ?case unfolding e using Cons.prems by (simp add: Cons.IH distinct_update)
qed

lemma collect_collisions_concat:
  "collect_collisions rm acc =
     acc @ concat (map snd (filter (\<lambda>e. length (snd e) > 1) rm))"
  by (induction rm arbitrary: acc) auto

lemma group_entries:
  "(n, aids) \<in> set (group_by_target pm []) \<longleftrightarrow> proposers pm n \<noteq> [] \<and> aids = proposers pm n"
proof -
  have "distinct (map fst (group_by_target pm []))"
    by (rule group_by_target_distinct) simp
  then have "(n, aids) \<in> set (group_by_target pm []) \<longleftrightarrow>
      map_of (group_by_target pm []) n = Some aids"
    by simp
  then show ?thesis by (auto simp: group_by_target_map_of)
qed

lemma detect_collisions_set:
  "set (detect_collisions pm) = {a. \<exists>n. a \<in> set (proposers pm n) \<and> length (proposers pm n) > 1}"
proof -
  have "a \<in> set (detect_collisions pm) \<longleftrightarrow>
      (\<exists>n. a \<in> set (proposers pm n) \<and> length (proposers pm n) > 1)" for a
  proof -
    have "a \<in> set (detect_collisions pm) \<longleftrightarrow>
        (\<exists>n aids. (n, aids) \<in> set (group_by_target pm []) \<and> length aids > 1 \<and> a \<in> set aids)"
      by (auto simp: detect_collisions_def collect_collisions_concat)
    also have "\<dots> \<longleftrightarrow> (\<exists>n. a \<in> set (proposers pm n) \<and> length (proposers pm n) > 1)"
    proof
      assume "\<exists>n aids. (n, aids) \<in> set (group_by_target pm []) \<and> length aids > 1 \<and> a \<in> set aids"
      then obtain n aids where "aids = proposers pm n" "length aids > 1" "a \<in> set aids"
        unfolding group_entries by blast
      then show "\<exists>n. a \<in> set (proposers pm n) \<and> length (proposers pm n) > 1" by blast
    next
      assume "\<exists>n. a \<in> set (proposers pm n) \<and> length (proposers pm n) > 1"
      then obtain n where n: "a \<in> set (proposers pm n)" "length (proposers pm n) > 1" by blast
      then have "proposers pm n \<noteq> []" by auto
      then have "(n, proposers pm n) \<in> set (group_by_target pm [])"
        unfolding group_entries by simp
      with n show "\<exists>n aids. (n, aids) \<in> set (group_by_target pm []) \<and> length aids > 1 \<and> a \<in> set aids"
        by blast
    qed
    finally show ?thesis .
  qed
  then show ?thesis by blast
qed

lemma distinct_concat_map:
  assumes "distinct ks"
    and "\<And>k. k \<in> set ks \<Longrightarrow> distinct (f k)"
    and "\<And>k k'. k \<in> set ks \<Longrightarrow> k' \<in> set ks \<Longrightarrow> k \<noteq> k' \<Longrightarrow> set (f k) \<inter> set (f k') = {}"
  shows "distinct (concat (map f ks))"
  using assms
proof (induction ks)
  case Nil
  then show ?case by simp
next
  case (Cons k ks)
  have "distinct (concat (map f ks))" using Cons by simp
  moreover have "distinct (f k)" using Cons.prems(2) by simp
  moreover have "set (f k) \<inter> set (f k') = {}" if "k' \<in> set ks" for k'
    using that Cons.prems(1) Cons.prems(3) [of k k'] by auto
  ultimately show ?case by auto
qed

lemma detect_collisions_distinct:
  assumes "distinct (map fst pm)"
  shows "distinct (detect_collisions pm)"
proof -
  let ?rm = "group_by_target pm []"
  let ?es = "filter (\<lambda>e. length (snd e) > 1) ?rm"
  have dk: "distinct (map fst ?rm)" by (rule group_by_target_distinct) simp
  then have dks: "distinct (map fst ?es)" by (simp add: distinct_map_filter)
  have snd_eq: "snd e = proposers pm (fst e)" if "e \<in> set ?rm" for e
    using that group_entries [of "fst e" "snd e" pm] by simp
  have "map snd ?es = map (proposers pm) (map fst ?es)"
    using snd_eq by simp
  then have eq: "concat (map snd ?es) = concat (map (proposers pm) (map fst ?es))"
    by (rule arg_cong)
  have "distinct (concat (map (proposers pm) (map fst ?es)))"
  proof (rule distinct_concat_map [OF dks])
    show "distinct (proposers pm k)" for k using assms by (rule distinct_proposers)
  next
    fix k k' :: node_id
    assume "k \<noteq> k'"
    show "set (proposers pm k) \<inter> set (proposers pm k') = {}"
    proof (rule ccontr)
      assume "set (proposers pm k) \<inter> set (proposers pm k') \<noteq> {}"
      then obtain a where "(a, k) \<in> set pm" "(a, k') \<in> set pm"
        by (auto simp: set_proposers)
      then have "k = k'" using assms by (rule eq_key_imp_eq_value [rotated])
      then show False using \<open>k \<noteq> k'\<close> by simp
    qed
  qed
  then show ?thesis
    unfolding detect_collisions_def collect_collisions_concat append_Nil eq .
qed


lemma distinct_length_gt1:
  assumes "distinct xs" and "a \<in> set xs"
  shows "length xs > 1 \<longleftrightarrow> (\<exists>b \<in> set xs. b \<noteq> a)"
proof
  assume l: "length xs > 1"
  show "\<exists>b \<in> set xs. b \<noteq> a"
  proof (rule ccontr)
    assume "\<not> (\<exists>b \<in> set xs. b \<noteq> a)"
    then have "set xs \<subseteq> {a}" by auto
    then have "card (set xs) \<le> card {a}" by (intro card_mono) simp_all
    then have "card (set xs) \<le> 1" by simp
    then show False using l assms(1) by (simp add: distinct_card)
  qed
next
  assume "\<exists>b \<in> set xs. b \<noteq> a"
  then obtain b where "b \<in> set xs" "b \<noteq> a" by blast
  with assms have "card {a, b} \<le> card (set xs)" by (intro card_mono) auto
  then show "length xs > 1" using \<open>b \<noteq> a\<close> assms(1) by (simp add: distinct_card)
qed

lemma detect_collisions_iff:
  assumes "distinct (map fst pm)"
  shows "aid \<in> set (detect_collisions pm) \<longleftrightarrow>
           (\<exists>node. (aid, node) \<in> set pm \<and> (\<exists>other. other \<noteq> aid \<and> (other, node) \<in> set pm))"
proof
  assume "aid \<in> set (detect_collisions pm)"
  then obtain n where n: "aid \<in> set (proposers pm n)" "length (proposers pm n) > 1"
    unfolding detect_collisions_set by blast
  have "distinct (proposers pm n)" using assms by (rule distinct_proposers)
  from distinct_length_gt1 [OF this n(1)] n(2)
  obtain b where "b \<in> set (proposers pm n)" "b \<noteq> aid" by blast
  then have "(b, n) \<in> set pm" by (simp add: set_proposers)
  moreover have "(aid, n) \<in> set pm" using n(1) by (simp add: set_proposers)
  ultimately show "\<exists>node. (aid, node) \<in> set pm \<and> (\<exists>other. other \<noteq> aid \<and> (other, node) \<in> set pm)"
    using \<open>b \<noteq> aid\<close> by blast
next
  assume "\<exists>node. (aid, node) \<in> set pm \<and> (\<exists>other. other \<noteq> aid \<and> (other, node) \<in> set pm)"
  then obtain n b where nb: "(aid, n) \<in> set pm" "b \<noteq> aid" "(b, n) \<in> set pm" by blast
  then have in_a: "aid \<in> set (proposers pm n)" and in_b: "b \<in> set (proposers pm n)"
    by (simp_all add: set_proposers)
  have "distinct (proposers pm n)" using assms by (rule distinct_proposers)
  from distinct_length_gt1 [OF this in_a] in_b nb(2)
  have "length (proposers pm n) > 1" by blast
  with in_a show "aid \<in> set (detect_collisions pm)"
    unfolding detect_collisions_set by blast
qed


text \<open>
  Claim C4. For every proposed move set (a dict, so its keys are distinct), an agent id is
  in the result of \<open>detect_collisions\<close> if and only if some other agent id of the dict
  proposes the same target node; in particular an agent with a uniquely claimed target is
  never in it. The result lists no id twice, so it stands for a set. The function is pure:
  it only reads its argument.
\<close>

theorem collision_symmetry:
  assumes "distinct (map fst proposed_moves)"
  shows "(aid \<in> set (detect_collisions proposed_moves) \<longleftrightarrow>
           (\<exists>node. (aid, node) \<in> set proposed_moves
              \<and> (\<exists>other. other \<noteq> aid \<and> (other, node) \<in> set proposed_moves)))
         \<and> distinct (detect_collisions proposed_moves)"
  using detect_collisions_iff [OF assms] detect_collisions_distinct [OF assms] by simp

theorem collision_symmetry_witness:
  "distinct (map fst example_moves)
   \<and> (''A'' \<in> set (detect_collisions example_moves) \<longleftrightarrow>
        (\<exists>node. (''A'', node) \<in> set example_moves
           \<and> (\<exists>other. other \<noteq> ''A'' \<and> (other, node) \<in> set example_moves)))
   \<and> distinct (detect_collisions example_moves)
   \<and> detect_collisions example_moves = [''A'', ''C'']"
proof -
  have h: "distinct (map fst example_moves)" by (simp add: example_moves_def)
  have "detect_collisions example_moves = [''A'', ''C'']"
    by (simp add: detect_collisions_def example_moves_def)
  with h collision_symmetry [OF h, of "''A''"] show ?thesis by blast
qed

subsection \<open>Single-agent local annealer\<close>

lemma initial_route_unfold:
  "shuffle (nodes p) g = (r, g') \<Longrightarrow> r \<noteq> [] \<Longrightarrow>
   initial_route p a g =
     Inr (let r1 = (if hd r \<noteq> current_node a then
                      (case index_of r (current_node a) of
                         Some idx \<Rightarrow> r[0 := r ! idx, idx := r ! 0]
                       | None \<Rightarrow> current_node a # r)
                    else r)
          in if last r1 \<noteq> current_node a then r1 @ [current_node a] else r1, g')"
proof -
  assume sh: "shuffle (nodes p) g = (r, g')" and "r \<noteq> []"
  then obtain r0 rs where r: "r = r0 # rs" by (cases r) auto
  show ?thesis unfolding initial_route_def sh unfolding r by (simp add: Let_def)
qed

lemma initial_route_total:
  assumes "nodes p \<noteq> []"
  shows "\<exists>r g'. initial_route p a g = Inr (r, g') \<and> r \<noteq> [] \<and> hd r = current_node a"
proof -
  obtain r g' where sh: "shuffle (nodes p) g = (r, g')" by (cases "shuffle (nodes p) g")
  then have "length r = length (nodes p)" using shuffle_length [of "nodes p" g] by simp
  with assms have ne: "r \<noteq> []" by auto
  define r1 where "r1 = (if hd r \<noteq> current_node a then
                            (case index_of r (current_node a) of
                               Some idx \<Rightarrow> r[0 := r ! idx, idx := r ! 0]
                             | None \<Rightarrow> current_node a # r)
                          else r)"
  define r2 where "r2 = (if last r1 \<noteq> current_node a then r1 @ [current_node a] else r1)"
  have eq: "initial_route p a g = Inr (r2, g')"
    unfolding initial_route_unfold [OF sh ne] r2_def r1_def Let_def ..
  have r1: "r1 \<noteq> [] \<and> hd r1 = current_node a"
  proof (cases "hd r = current_node a")
    case True
    then show ?thesis using ne by (simp add: r1_def)
  next
    case False
    show ?thesis
    proof (cases "index_of r (current_node a)")
      case None
      then show ?thesis using False by (simp add: r1_def)
    next
      case (Some idx)
      then have i: "idx < length r" "r ! idx = current_node a"
        using first_index_Some [of "\<lambda>x. x = current_node a" r idx] by (simp_all add: index_of_def)
      have "idx \<noteq> 0"
      proof
        assume "idx = 0"
        with i(2) ne have "hd r = current_node a" by (simp add: hd_conv_nth)
        with False show False by simp
      qed
      from swap_to_front [OF ne this, of "r ! idx" "r ! 0"] i(2)
      have "r[0 := r ! idx, idx := r ! 0] \<noteq> [] \<and> hd (r[0 := r ! idx, idx := r ! 0]) = current_node a"
        by simp
      moreover have "r1 = r[0 := r ! idx, idx := r ! 0]"
        using False Some by (simp add: r1_def)
      ultimately show ?thesis by simp
    qed
  qed
  then have "r2 \<noteq> [] \<and> hd r2 = current_node a" by (simp add: r2_def)
  with eq show ?thesis by blast
qed

lemma quantum_jump_total:
  assumes "routes cur \<noteq> []"
  shows "\<exists>s' g'. quantum_jump_neighbor cur p jump_prob g = Inr (s', g')
           \<and> routes s' \<noteq> [] \<and> hd (routes s') = hd (routes cur)"
proof (cases "4 \<le> length (routes cur)")
  case True
  from quantum_jump_long [OF True, of p jump_prob g] obtain s' g' where
    s: "quantum_jump_neighbor cur p jump_prob g = Inr (s', g')"
      "mset (routes s') = mset (routes cur)" "hd (routes s') = hd (routes cur)"
    by blast
  from s(2) assms have "routes s' \<noteq> []" by auto
  with s show ?thesis by blast
next
  case False
  then have "length (routes cur) < 4" by simp
  from quantum_jump_short [OF this, of p jump_prob g] assms show ?thesis by simp
qed



text \<open>
  Whenever the local annealer returns, the agent's current node is the first element of
  the returned route.
\<close>

lemma initial_route_result:
  assumes "initial_route p a g = Inr (r, g')"
  shows "r \<noteq> [] \<and> hd r = current_node a"
proof -
  have "nodes p \<noteq> []"
  proof
    assume "nodes p = []"
    then have "initial_route p a g = Inl IndexError"
      by (simp add: initial_route_def shuffle_def)
    with assms show False by simp
  qed
  from initial_route_total [OF this, of a g] assms show ?thesis by auto
qed

lemma sa_loop_result:
  "sa_loop c p k best best_cost temperature g = Inr (s, g') \<Longrightarrow> routes best \<noteq> [] \<Longrightarrow>
   routes s \<noteq> [] \<and> hd (routes s) = hd (routes best)"
proof (induction k arbitrary: best best_cost temperature g)
  case 0
  then show ?case by simp
next
  case (Suc k)
  from quantum_jump_total [OF Suc.prems(2), of p "quantum_jump_prob c" g]
  obtain n0 g1 where qj: "quantum_jump_neighbor best p (quantum_jump_prob c) g = Inr (n0, g1)"
    and n0: "routes n0 \<noteq> []" "hd (routes n0) = hd (routes best)" by blast
  define nb where "nb = n0\<lparr>total_cost := Some (accumulated_cost p (routes n0))\<rparr>"
  define nc where "nc = accumulated_cost p (routes n0)"
  have tc: "tsp_total_cost n0 p = Inr (nb, nc)" by (simp add: tsp_total_cost_eq nb_def nc_def)
  have nb: "routes nb \<noteq> []" "hd (routes nb) = hd (routes best)" using n0 by (simp_all add: nb_def)
  from Suc.prems(1) qj tc obtain ap where
    ap: "acceptance_probability best_cost nc temperature = Inr ap"
    by (auto split: sum.splits)
  obtain u g2 where u: "random_py g1 = (u, g2)" by (cases "random_py g1")
  define best' where "best' = (if flt u ap then nb else best)"
  define bc' where "bc' = (if flt u ap then nc else best_cost)"
  define t' where "t' = fmul temperature (cooling_rate c)"
  have b': "routes best' \<noteq> []" "hd (routes best') = hd (routes best)"
    using nb Suc.prems(2) by (simp_all add: best'_def)
  have step: "sa_loop c p (Suc k) best best_cost temperature g =
      (if flt t' (min_temp c) then Inr (best', g2) else sa_loop c p k best' bc' t' g2)"
    using qj tc ap u by (simp add: best'_def bc'_def t'_def Let_def)
  show ?case
  proof (cases "flt t' (min_temp c)")
    case True
    with step Suc.prems(1) b' show ?thesis by simp
  next
    case False
    with step Suc.prems(1) have "sa_loop c p k best' bc' t' g2 = Inr (s, g')" by simp
    from Suc.IH [OF this b'(1)] b'(2) show ?thesis by simp
  qed
qed

lemma local_sa_result:
  assumes "local_sa c p a g = Inr (s, g')"
  shows "index_of (routes s) (current_node a) = Some 0"
proof -
  from assms obtain r g1 where ir: "initial_route p a g = Inr (r, g1)"
    by (auto simp: local_sa_def split: sum.splits)
  from initial_route_result [OF ir] have r: "r \<noteq> []" "hd r = current_node a" by simp_all
  let ?s0 = "\<lparr>routes = r, total_cost = None, meta = []\<rparr>"
  define b0 where "b0 = ?s0\<lparr>total_cost := Some (accumulated_cost p r)\<rparr>"
  have tc: "tsp_total_cost ?s0 p = Inr (b0, accumulated_cost p r)"
    by (simp add: tsp_total_cost_eq b0_def)
  have b0: "routes b0 \<noteq> []" "hd (routes b0) = current_node a" using r by (simp_all add: b0_def)
  from assms ir tc have
    "sa_loop c p (nat (mini_iter c)) b0 (accumulated_cost p r) (start_temp c) g1 = Inr (s, g')"
    by (simp add: local_sa_def)
  from sa_loop_result [OF this b0(1)] b0(2) index_of_hd [of "routes s"] show ?thesis by simp
qed

text \<open>
  A concrete search: the draws, the initial tour and its cost, the neighbour drawn from it
  and its cost, and the acceptance test.
\<close>

lemma sa_randbelow: "k \<noteq> 3 \<Longrightarrow> k \<noteq> 6 \<Longrightarrow> randbelow m (sa_rng k) = (0, sa_rng (Suc k))"
  by (simp add: randbelow_def sa_rng_def sa_draws_def)

lemma sa_random_half: "k = 3 \<or> k = 6 \<Longrightarrow> random_py (sa_rng k) = (Fin (1 / 2), sa_rng (Suc k))"
  by (auto simp: random_py_def sa_rng_def sa_draws_def)

lemma sa_initial_route:
  "initial_route sa_problem sa_agent (sa_rng 0) = Inr ([1, 3, 4, 2, 1], sa_rng 3)"
  by (simp add: initial_route_def sa_problem_def sa_agent_def agent_init_def
      shuffle_def shuffle_from_numeral sa_randbelow index_of_def eval_nat_numeral)

lemma sa_neighbor:
  "quantum_jump_neighbor \<lparr>routes = [1, 3, 4, 2, 1], total_cost = Some (Fin 4), meta = []\<rparr>
     sa_problem (round_double (1 / 20)) (sa_rng 3)
   = Inr (\<lparr>routes = [1, 4, 3, 2, 1], total_cost = None, meta = []\<rparr>, sa_rng 6)"
  by (simp add: quantum_jump_neighbor_def tsp_2opt_neighbor_def sa_random_half sample2_def
      sa_randbelow slice_def slice_assign_def Let_def upt_rec eval_nat_numeral
      double_twentieth)

lemma sa_initial_cost: "tsp_total_cost \<lparr>routes = [1, 3, 4, 2, 1], total_cost = None, meta = []\<rparr> sa_problem
   = Inr (\<lparr>routes = [1, 3, 4, 2, 1], total_cost = Some (Fin 4), meta = []\<rparr>, Fin 4)"
  by (simp add: tsp_total_cost_def sa_problem_def distance_def upt_rec)

lemma sa_neighbor_cost: "tsp_total_cost \<lparr>routes = [1, 4, 3, 2, 1], total_cost = None, meta = []\<rparr> sa_problem
   = Inr (\<lparr>routes = [1, 4, 3, 2, 1], total_cost = Some (Fin 5), meta = []\<rparr>, Fin 5)"
  by (simp add: tsp_total_cost_def sa_problem_def distance_def upt_rec)

text \<open>
  Claim C1 fails on the code. \<open>_local_sa\<close> keeps a single candidate: an accepted neighbour
  replaces \<open>best_solution\<close> whether or not it is cheaper, and that candidate is returned.
  On \<open>sa_problem\<close> with one annealing step the initial tour \<open>[1, 3, 4, 2, 1]\<close> costs \<open>4\<close>;
  its 2-opt neighbour \<open>[1, 4, 3, 2, 1]\<close> costs \<open>5\<close> and is accepted on the draw \<open>1/2\<close>
  (the Metropolis probability is about \<open>0.99\<close>); \<open>local_sa\<close> returns that neighbour,
  although the initial candidate was cheaper.
\<close>

theorem local_sa_returns_worse_candidate:
  "initial_route sa_problem sa_agent (sa_rng 0) = Inr ([1, 3, 4, 2, 1], sa_rng 3)
   \<and> tsp_total_cost \<lparr>routes = [1, 3, 4, 2, 1], total_cost = None, meta = []\<rparr> sa_problem
       = Inr (\<lparr>routes = [1, 3, 4, 2, 1], total_cost = Some (Fin 4), meta = []\<rparr>, Fin 4)
   \<and> local_sa sa_config sa_problem sa_agent (sa_rng 0)
       = Inr (\<lparr>routes = [1, 4, 3, 2, 1], total_cost = Some (Fin 5), meta = []\<rparr>, sa_rng 7)"
proof -
  have u: "random_py (sa_rng 6) = (Fin (1 / 2), sa_rng 7)"
    using sa_random_half [of 6] by simp
  from accept_worse obtain ap where
    ap: "acceptance_probability (Fin 4) (Fin 5) (Fin 100) = Inr ap" "flt (Fin (1 / 2)) ap"
    by blast
  then show ?thesis
    by (simp add: local_sa_def sa_initial_route sa_initial_cost sa_neighbor sa_neighbor_cost u
        sa_config_def Let_def)
qed

subsection \<open>Tick scheduler: the steps of a tick and the tick loop\<close>

lemma step_to_id: "agent_id (step_to a n) = agent_id a"
  by (simp add: step_to_def Let_def)

lemma keys_delete: "fst ` set (AList.delete k al) = fst ` set al - {k}"
  by (metis delete_keys set_map set_removeAll)

lemma propose_agent_shape:
  assumes "propose_agent c p a pm sols g = Inr (a', pm', sols', g')"
  shows "agent_id a' = agent_id a \<and> (pm' = pm \<or> (\<exists>n. pm' = AList.update (agent_id a) n pm))"
  using assms
  by (auto simp: propose_agent_def Let_def
      split: if_splits sum.splits option.splits prod.splits)

lemma propose_agent_result:
  assumes "propose_agent c p a pm sols g = Inr (a', pm', sols', g')"
  shows "agent_id a' = agent_id a
       \<and> fst ` set pm' \<subseteq> insert (agent_id a) (fst ` set pm)
       \<and> (distinct (map fst pm) \<longrightarrow> distinct (map fst pm'))"
proof -
  from propose_agent_shape [OF assms] have id: "agent_id a' = agent_id a"
    and sh: "pm' = pm \<or> (\<exists>n. pm' = AList.update (agent_id a) n pm)" by simp_all
  from sh have "fst ` set pm' \<subseteq> insert (agent_id a) (fst ` set pm)"
    using dom_update [of "agent_id a" _ pm] by auto
  moreover from sh have "distinct (map fst pm) \<longrightarrow> distinct (map fst pm')"
    using distinct_update [of pm "agent_id a"] by auto
  ultimately show ?thesis using id by simp
qed


lemma propose_moves_result:
  "propose_moves c p ags pm sols g = Inr (ags', pm', sols', g') \<Longrightarrow>
   map agent_id ags' = map agent_id ags
   \<and> fst ` set pm' \<subseteq> fst ` set pm \<union> set (map agent_id ags)
   \<and> (distinct (map fst pm) \<longrightarrow> distinct (map fst pm'))"
proof (induction ags arbitrary: pm sols g ags' pm' sols' g')
  case Nil
  then show ?case by simp
next
  case (Cons a ags)
  from Cons.prems obtain a1 pm1 sols1 g1 where
    pa: "propose_agent c p a pm sols g = Inr (a1, pm1, sols1, g1)"
    by (auto split: sum.splits)
  with Cons.prems obtain rest' where
    pr: "propose_moves c p ags pm1 sols1 g1 = Inr (rest', pm', sols', g')" and ags': "ags' = a1 # rest'"
    by (auto split: sum.splits)
  from propose_agent_result [OF pa] have a1: "agent_id a1 = agent_id a"
    and k1: "fst ` set pm1 \<subseteq> insert (agent_id a) (fst ` set pm)"
    and d1: "distinct (map fst pm) \<longrightarrow> distinct (map fst pm1)" by simp_all
  from Cons.IH [OF pr] have r: "map agent_id rest' = map agent_id ags"
    and k2: "fst ` set pm' \<subseteq> fst ` set pm1 \<union> set (map agent_id ags)"
    and d2: "distinct (map fst pm1) \<longrightarrow> distinct (map fst pm')" by simp_all
  have "map agent_id ags' = map agent_id (a # ags)" using ags' a1 r by simp
  moreover have "fst ` set pm' \<subseteq> fst ` set pm \<union> set (map agent_id (a # ags))"
  proof -
    have "fst ` set pm' \<subseteq> insert (agent_id a) (fst ` set pm) \<union> set (map agent_id ags)"
      using k1 k2 by blast
    then show ?thesis by auto
  qed
  moreover have "distinct (map fst pm) \<longrightarrow> distinct (map fst pm')" using d1 d2 by blast
  ultimately show ?case by blast
qed


lemma ids_update_status: "k < length ags \<Longrightarrow>
  map agent_id (ags[k := (ags ! k)\<lparr>status := st\<rparr>]) = map agent_id ags"
  by (simp add: map_update list_update_same_conv)

lemma ids_update_step: "k < length ags \<Longrightarrow>
  map agent_id (ags[k := step_to (ags ! k) n]) = map agent_id ags"
  by (simp add: map_update list_update_same_conv step_to_id)

lemma first_index_ids:
  "map agent_id ags' = map agent_id ags \<Longrightarrow>
   first_index (\<lambda>a. agent_id a = aid) ags' = first_index (\<lambda>a. agent_id a = aid) ags"
  by (simp add: first_index_map [of agent_id])

lemma block_collisions_result:
  "block_collisions cols ags pm = Inr (ags', pm') \<Longrightarrow>
   map agent_id ags' = map agent_id ags
   \<and> fst ` set pm' = fst ` set pm - set cols
   \<and> (\<forall>k<length ags. status (ags ! k) = Blocked \<longrightarrow> status (ags' ! k) = Blocked)
   \<and> (\<forall>aid\<in>set cols. \<forall>k. first_index (\<lambda>a. agent_id a = aid) ags = Some k \<longrightarrow>
         status (ags' ! k) = Blocked)"
proof (induction cols arbitrary: ags pm)
  case Nil
  then show ?case by simp
next
  case (Cons aid cols)
  from Cons.prems obtain k where
    k: "first_index (\<lambda>a. agent_id a = aid) ags = Some k"
    and rec: "block_collisions cols (ags[k := (ags ! k)\<lparr>status := Blocked\<rparr>]) (AList.delete aid pm)
              = Inr (ags', pm')"
    by (auto split: if_splits option.splits)
  let ?ags1 = "ags[k := (ags ! k)\<lparr>status := Blocked\<rparr>]"
  from first_index_Some [OF k] have kl: "k < length ags" by simp
  have ids1: "map agent_id ?ags1 = map agent_id ags" using kl by (rule ids_update_status)
  note IH = Cons.IH [OF rec]
  have ids: "map agent_id ags' = map agent_id ags" using IH ids1 by simp
  have keys: "fst ` set pm' = fst ` set pm - set (aid # cols)"
    using IH keys_delete [of aid pm] by auto
  have keep: "status (ags' ! j) = Blocked" if "j < length ags" "status (?ags1 ! j) = Blocked" for j
    using IH that by simp
  have blocked_stay: "\<forall>j<length ags. status (ags ! j) = Blocked \<longrightarrow> status (ags' ! j) = Blocked"
  proof (intro allI impI)
    fix j assume j: "j < length ags" "status (ags ! j) = Blocked"
    then have "status (?ags1 ! j) = Blocked" by (cases "j = k") simp_all
    with j(1) show "status (ags' ! j) = Blocked" by (rule keep)
  qed
  have new: "\<forall>a\<in>set (aid # cols). \<forall>j. first_index (\<lambda>x. agent_id x = a) ags = Some j \<longrightarrow>
         status (ags' ! j) = Blocked"
  proof (intro ballI allI impI)
    fix a j assume a: "a \<in> set (aid # cols)" and j: "first_index (\<lambda>x. agent_id x = a) ags = Some j"
    show "status (ags' ! j) = Blocked"
    proof (cases "a = aid")
      case True
      with j k have "j = k" by simp
      moreover have "status (?ags1 ! k) = Blocked" using kl by simp
      ultimately show ?thesis using keep kl by simp
    next
      case False
      with a have "a \<in> set cols" by simp
      moreover have "first_index (\<lambda>x. agent_id x = a) ?ags1 = Some j"
        using first_index_ids [OF ids1] j by simp
      ultimately show ?thesis using IH by blast
    qed
  qed
  show ?case using ids keys blocked_stay new by blast
qed


lemma commit_moves_result:
  "commit_moves pm ags = Inr ags' \<Longrightarrow>
   map agent_id ags' = map agent_id ags
   \<and> (\<forall>k<length ags. agent_id (ags ! k) \<notin> fst ` set pm \<longrightarrow> ags' ! k = ags ! k)"
proof (induction pm arbitrary: ags)
  case Nil
  then show ?case by simp
next
  case (Cons e pm)
  obtain aid n where e: "e = (aid, n)" by (cases e)
  from Cons.prems e obtain k where
    k: "first_index (\<lambda>a. agent_id a = aid) ags = Some k"
    and rec: "commit_moves pm (ags[k := step_to (ags ! k) n]) = Inr ags'"
    by (auto split: option.splits)
  let ?ags1 = "ags[k := step_to (ags ! k) n]"
  from first_index_Some [OF k] have kl: "k < length ags" and kid: "agent_id (ags ! k) = aid"
    by simp_all
  have ids1: "map agent_id ?ags1 = map agent_id ags" using kl by (rule ids_update_step)
  note IH = Cons.IH [OF rec]
  have "map agent_id ags' = map agent_id ags" using IH ids1 by simp
  moreover have "ags' ! j = ags ! j"
    if j: "j < length ags" "agent_id (ags ! j) \<notin> fst ` set (e # pm)" for j
  proof -
    from j kid e have jk: "j \<noteq> k" by auto
    then have same: "?ags1 ! j = ags ! j" by simp
    with j have "agent_id (?ags1 ! j) \<notin> fst ` set pm" by simp
    with IH j(1) have "ags' ! j = ?ags1 ! j" by simp
    with same show ?thesis by simp
  qed
  ultimately show ?case by blast
qed


lemma block_collisions_fields:
  "block_collisions cols ags pm = Inr (ags', pm') \<Longrightarrow>
   \<forall>k<length ags. \<exists>st. ags' ! k = (ags ! k)\<lparr>status := st\<rparr>"
proof (induction cols arbitrary: ags pm)
  case Nil
  then have "ags' = ags" by simp
  moreover have "ags ! k = (ags ! k)\<lparr>status := status (ags ! k)\<rparr>" for k by simp
  ultimately show ?case by blast
next
  case (Cons aid cols)
  from Cons.prems obtain k where
    k: "first_index (\<lambda>a. agent_id a = aid) ags = Some k"
    and rec: "block_collisions cols (ags[k := (ags ! k)\<lparr>status := Blocked\<rparr>]) (AList.delete aid pm)
              = Inr (ags', pm')"
    by (auto split: if_splits option.splits)
  let ?ags1 = "ags[k := (ags ! k)\<lparr>status := Blocked\<rparr>]"
  note IH = Cons.IH [OF rec]
  show ?case
  proof (intro allI impI)
    fix j assume j: "j < length ags"
    with IH obtain st where st: "ags' ! j = (?ags1 ! j)\<lparr>status := st\<rparr>" by auto
    show "\<exists>st. ags' ! j = (ags ! j)\<lparr>status := st\<rparr>"
    proof (cases "j = k")
      case True
      with st j have "ags' ! j = (ags ! j)\<lparr>status := st\<rparr>" by simp
      then show ?thesis ..
    next
      case False
      with st have "ags' ! j = (ags ! j)\<lparr>status := st\<rparr>" by simp
      then show ?thesis ..
    qed
  qed
qed

lemma unblock_props:
  "agent_id (unblock a) = agent_id a" "status (unblock a) \<noteq> Blocked"
  "route (unblock a) = route a" "current_node (unblock a) = current_node a"
  "status a = Blocked \<Longrightarrow> status (unblock a) = Active"
  by (simp_all add: unblock_def)

lemma resolve_moves_result:
  assumes "resolve_moves ags pm = Inr ags4"
  shows "map agent_id ags4 = map agent_id ags"
    and "\<forall>a\<in>set ags4. status a \<noteq> Blocked"
    and "\<forall>aid\<in>set (detect_collisions pm). \<forall>k.
           first_index (\<lambda>a. agent_id a = aid) ags = Some k \<longrightarrow>
             status (ags4 ! k) = Active \<and> route (ags4 ! k) = route (ags ! k)
             \<and> current_node (ags4 ! k) = current_node (ags ! k)"
proof -
  let ?cols = "detect_collisions pm"
  from assms obtain ags2 pm2 ags3 where
    bc: "block_collisions ?cols ags pm = Inr (ags2, pm2)"
    and cm: "commit_moves pm2 ags2 = Inr ags3"
    and a4: "ags4 = map unblock ags3"
    by (auto simp: resolve_moves_def split: sum.splits)
  from block_collisions_result [OF bc] have ids2: "map agent_id ags2 = map agent_id ags"
    and keys2: "fst ` set pm2 = fst ` set pm - set ?cols"
    and blk: "\<forall>aid\<in>set ?cols. \<forall>k. first_index (\<lambda>a. agent_id a = aid) ags = Some k \<longrightarrow>
         status (ags2 ! k) = Blocked" by simp_all
  from commit_moves_result [OF cm] have ids3: "map agent_id ags3 = map agent_id ags2"
    and same: "\<forall>k<length ags2. agent_id (ags2 ! k) \<notin> fst ` set pm2 \<longrightarrow> ags3 ! k = ags2 ! k"
    by simp_all
  have l2: "length ags2 = length ags" using ids2 by (rule map_eq_imp_length_eq)
  have l3: "length ags3 = length ags2" using ids3 by (rule map_eq_imp_length_eq)
  show "map agent_id ags4 = map agent_id ags"
    using ids2 ids3 by (simp add: a4 unblock_props comp_def)
  show "\<forall>a\<in>set ags4. status a \<noteq> Blocked"
    by (auto simp: a4 unblock_props)
  show "\<forall>aid\<in>set ?cols. \<forall>k.
           first_index (\<lambda>a. agent_id a = aid) ags = Some k \<longrightarrow>
             status (ags4 ! k) = Active \<and> route (ags4 ! k) = route (ags ! k)
             \<and> current_node (ags4 ! k) = current_node (ags ! k)"
  proof (intro ballI allI impI)
    fix aid k
    assume aid: "aid \<in> set ?cols" and k: "first_index (\<lambda>a. agent_id a = aid) ags = Some k"
    from first_index_Some [OF k] have kl: "k < length ags" and kid: "agent_id (ags ! k) = aid"
      by simp_all
    from blk aid k have b2: "status (ags2 ! k) = Blocked" by blast
    from block_collisions_fields [OF bc] kl obtain st where
      f2: "ags2 ! k = (ags ! k)\<lparr>status := st\<rparr>" by blast
    then have "agent_id (ags2 ! k) = aid" using kid by simp
    with aid keys2 have "agent_id (ags2 ! k) \<notin> fst ` set pm2" by simp
    with same kl l2 have e3: "ags3 ! k = ags2 ! k" by simp
    have "ags4 ! k = unblock (ags3 ! k)" using kl l2 l3 by (simp add: a4)
    with e3 b2 f2 show "status (ags4 ! k) = Active \<and> route (ags4 ! k) = route (ags ! k)
             \<and> current_node (ags4 ! k) = current_node (ags ! k)"
      by (simp add: unblock_props)
  qed
qed


lemma tick_body_cases:
  assumes "tick_body c t s = Inr s'"
  obtains p ags1 pm sols g ags4 where
    "fire_event c t (sched_problem s) = Inr p"
    "propose_moves c p (agents s) [] (agent_solutions s) (gen s) = Inr (ags1, pm, sols, g)"
    "resolve_moves ags1 pm = Inr ags4"
    "s' = \<lparr>sched_problem = p, agents = ags4, agent_solutions = sols, gen = g\<rparr>"
  using assms by (auto simp: tick_body_def split: sum.splits)

lemma tick_body_result:
  assumes "tick_body c t s = Inr s'"
  shows "\<forall>a\<in>set (agents s'). status a \<noteq> Blocked"
    and "map agent_id (agents s') = map agent_id (agents s)"
proof -
  from assms obtain p ags1 pm sols g ags4 where
    pm: "propose_moves c p (agents s) [] (agent_solutions s) (gen s) = Inr (ags1, pm, sols, g)"
    and rm: "resolve_moves ags1 pm = Inr ags4"
    and s': "s' = \<lparr>sched_problem = p, agents = ags4, agent_solutions = sols, gen = g\<rparr>"
    by (rule tick_body_cases)
  from resolve_moves_result(2) [OF rm] s' show "\<forall>a\<in>set (agents s'). status a \<noteq> Blocked"
    by simp
  from resolve_moves_result(1) [OF rm] propose_moves_result [OF pm] s'
  show "map agent_id (agents s') = map agent_id (agents s)" by simp
qed




lemma propose_agent_fields:
  assumes "propose_agent c p a pm sols g = Inr (a', pm', sols', g')"
  shows "\<exists>st. a' = a\<lparr>status := st\<rparr>"
proof -
  have "a = a\<lparr>status := status a\<rparr>" by simp
  moreover from assms have "a' = a \<or> a' = a\<lparr>status := Completed\<rparr> \<or> a' = a\<lparr>status := Blocked\<rparr>"
    by (auto simp: propose_agent_def Let_def
        split: if_splits sum.splits option.splits prod.splits)
  ultimately show ?thesis by metis
qed

lemma propose_moves_fields:
  "propose_moves c p ags pm sols g = Inr (ags', pm', sols', g') \<Longrightarrow>
   \<forall>k<length ags. \<exists>st. ags' ! k = (ags ! k)\<lparr>status := st\<rparr>"
proof (induction ags arbitrary: pm sols g ags' pm' sols' g')
  case Nil
  then show ?case by simp
next
  case (Cons a ags)
  from Cons.prems obtain a1 pm1 sols1 g1 where
    pa: "propose_agent c p a pm sols g = Inr (a1, pm1, sols1, g1)"
    by (auto split: sum.splits)
  with Cons.prems obtain rest' where
    pr: "propose_moves c p ags pm1 sols1 g1 = Inr (rest', pm', sols', g')" and ags': "ags' = a1 # rest'"
    by (auto split: sum.splits)
  from propose_agent_fields [OF pa] obtain st0 where a1: "a1 = a\<lparr>status := st0\<rparr>" by blast
  note IH = Cons.IH [OF pr]
  show ?case
  proof (intro allI impI)
    fix k assume k: "k < length (a # ags)"
    show "\<exists>st. ags' ! k = ((a # ags) ! k)\<lparr>status := st\<rparr>"
    proof (cases k)
      case 0
      with ags' a1 show ?thesis by auto
    next
      case (Suc j)
      with k IH obtain st where "rest' ! j = (ags ! j)\<lparr>status := st\<rparr>" by auto
      with Suc ags' show ?thesis by auto
    qed
  qed
qed

lemma agent_inv_status: "agent_inv (a\<lparr>status := st\<rparr>) = agent_inv a"
  by (simp add: agent_inv_def)

lemma agent_inv_step_to: "agent_inv a \<Longrightarrow> agent_inv (step_to a n)"
  by (auto simp: agent_inv_def step_to_def Let_def)

lemma status_only_inv:
  assumes "length ags' = length ags"
    and "\<forall>k<length ags. \<exists>st. ags' ! k = (ags ! k)\<lparr>status := st\<rparr>"
    and "list_all agent_inv ags"
  shows "list_all agent_inv ags'"
  unfolding list_all_length
proof (intro allI impI)
  fix k assume k: "k < length ags'"
  with assms(1,2) obtain st where "ags' ! k = (ags ! k)\<lparr>status := st\<rparr>" by auto
  moreover have "agent_inv (ags ! k)" using assms(1,3) k by (simp add: list_all_length)
  ultimately show "agent_inv (ags' ! k)" by (simp add: agent_inv_status)
qed

lemma commit_moves_inv:
  "commit_moves pm ags = Inr ags' \<Longrightarrow> list_all agent_inv ags \<Longrightarrow> list_all agent_inv ags'"
proof (induction pm arbitrary: ags)
  case Nil
  then show ?case by simp
next
  case (Cons e pm)
  obtain aid n where e: "e = (aid, n)" by (cases e)
  from Cons.prems(1) e obtain k where
    k: "first_index (\<lambda>a. agent_id a = aid) ags = Some k"
    and rec: "commit_moves pm (ags[k := step_to (ags ! k) n]) = Inr ags'"
    by (auto split: option.splits)
  from first_index_Some [OF k] have kl: "k < length ags" by simp
  have "list_all agent_inv (ags[k := step_to (ags ! k) n])"
    unfolding list_all_length
  proof (intro allI impI)
    fix j assume "j < length (ags[k := step_to (ags ! k) n])"
    then have j: "j < length ags" by simp
    then have "agent_inv (ags ! j)" using Cons.prems(2) by (simp add: list_all_length)
    then show "agent_inv (ags[k := step_to (ags ! k) n] ! j)"
      using j kl Cons.prems(2) by (cases "j = k") (simp_all add: agent_inv_step_to list_all_length)
  qed
  from Cons.IH [OF rec this] show ?case .
qed

lemma tick_body_inv:
  assumes "tick_body c t s = Inr s'" and "list_all agent_inv (agents s)"
  shows "list_all agent_inv (agents s')"
proof -
  from assms(1) obtain p ags1 pm sols g ags4 where
    pm: "propose_moves c p (agents s) [] (agent_solutions s) (gen s) = Inr (ags1, pm, sols, g)"
    and rm: "resolve_moves ags1 pm = Inr ags4"
    and s': "s' = \<lparr>sched_problem = p, agents = ags4, agent_solutions = sols, gen = g\<rparr>"
    by (rule tick_body_cases)
  from rm obtain ags2 pm2 ags3 where
    bc: "block_collisions (detect_collisions pm) ags1 pm = Inr (ags2, pm2)"
    and cm: "commit_moves pm2 ags2 = Inr ags3"
    and a4: "ags4 = map unblock ags3"
    by (auto simp: resolve_moves_def split: sum.splits)
  have l1: "length ags1 = length (agents s)"
    using propose_moves_result [OF pm] by (metis map_eq_imp_length_eq)
  have i1: "list_all agent_inv ags1"
    using status_only_inv [OF l1 propose_moves_fields [OF pm] assms(2)] .
  have l2: "length ags2 = length ags1"
    using block_collisions_result [OF bc] by (metis map_eq_imp_length_eq)
  have i2: "list_all agent_inv ags2"
    using status_only_inv [OF l2 block_collisions_fields [OF bc] i1] .
  have i3: "list_all agent_inv ags3" using commit_moves_inv [OF cm i2] .
  have "agent_inv (unblock a) = agent_inv a" for a by (simp add: unblock_def agent_inv_def)
  with i3 have "list_all agent_inv ags4" by (simp add: a4 list_all_iff)
  with s' show ?thesis by simp
qed

lemma run_loop_inv:
  "run_loop c t s = Inr r \<Longrightarrow> list_all agent_inv (agents s) \<Longrightarrow>
   list_all agent_inv (agents (final r))"
proof (induction c t s rule: run_loop.induct)
  case (1 c tick s)
  show ?case
  proof (cases "int tick < max_tick c")
    case False
    with "1.prems" show ?thesis by (auto simp: run_loop.simps [of c tick s])
  next
    case True
    with "1.prems"(1) obtain s' where tb: "tick_body c tick s = Inr s'"
      by (auto simp: run_loop.simps [of c tick s] split: sum.splits)
    from tick_body_inv [OF tb "1.prems"(2)] have inv': "list_all agent_inv (agents s')" .
    show ?thesis
    proof (cases "list_all (\<lambda>a. status a = Completed) (agents s')")
      case fin: True
      with True tb "1.prems"(1) inv' show ?thesis by (auto simp: run_loop.simps [of c tick s])
    next
      case cont: False
      with True tb "1.prems"(1) have rec: "run_loop c (Suc tick) s' = Inr r"
        by (simp add: run_loop.simps [of c tick s])
      from "1.IH" [OF True tb cont rec inv'] show ?thesis .
    qed
  qed
qed

text \<open>The tick loop from tick 0 continues as the loop from any tick it reaches.\<close>

lemma run_loop_from_tick:
  "state_before_tick c s0 t = Some s \<Longrightarrow> run_loop c 0 s0 = run_loop c t s"
proof (induction t arbitrary: s)
  case 0
  then show ?case by simp
next
  case (Suc t)
  from Suc.prems obtain s1 where s1: "state_before_tick c s0 t = Some s1"
    and lt: "int t < max_tick c" and tb: "tick_body c t s1 = Inr s"
    and nc: "\<not> all_completed (agents s)"
    by (auto split: option.splits if_splits sum.splits)
  from Suc.IH [OF s1] have "run_loop c 0 s0 = run_loop c t s1" .
  also have "\<dots> = run_loop c (Suc t) s"
    using lt tb nc by (subst run_loop.simps) (simp add: all_completed_def)
  finally show ?case .
qed

text \<open>
  Step 2 never sets an agent to \<open>Blocked\<close>: its fallback branch needs the current node to
  be absent from the annealed route, which does not happen.
\<close>

lemma propose_agent_never_blocks:
  assumes "propose_agent c p a pm sols g = Inr (a', pm', sols', g')" and "status a' = Blocked"
  shows "status a = Blocked"
proof (rule ccontr)
  assume nb: "status a \<noteq> Blocked"
  show False
  proof (cases "status a = Active \<and> current_node a \<noteq> goal_node a")
    case False
    with assms nb show False by (auto simp: propose_agent_def split: if_splits)
  next
    case True
    with assms(1) obtain s g1 where ls: "local_sa c p a g = Inr (s, g1)"
      by (auto simp: propose_agent_def split: sum.splits)
    from local_sa_result [OF ls] ls True assms nb show False
      by (simp add: propose_agent_def Let_def)
  qed
qed

lemma propose_moves_never_blocks:
  "propose_moves c p ags pm sols g = Inr (ags', pm', sols', g') \<Longrightarrow>
   \<forall>k<length ags. status (ags' ! k) = Blocked \<longrightarrow> status (ags ! k) = Blocked"
proof (induction ags arbitrary: pm sols g ags' pm' sols' g')
  case Nil
  then show ?case by simp
next
  case (Cons a ags)
  from Cons.prems obtain a1 pm1 sols1 g1 where
    pa: "propose_agent c p a pm sols g = Inr (a1, pm1, sols1, g1)"
    by (auto split: sum.splits)
  with Cons.prems obtain rest' where
    pr: "propose_moves c p ags pm1 sols1 g1 = Inr (rest', pm', sols', g')" and ags': "ags' = a1 # rest'"
    by (auto split: sum.splits)
  note IH = Cons.IH [OF pr]
  show ?case
  proof (intro allI impI)
    fix k assume k: "k < length (a # ags)" and b: "status (ags' ! k) = Blocked"
    show "status ((a # ags) ! k) = Blocked"
    proof (cases k)
      case 0
      with b ags' propose_agent_never_blocks [OF pa] show ?thesis by simp
    next
      case (Suc j)
      with k b ags' IH show ?thesis by simp
    qed
  qed
qed

subsection \<open>Concrete runs\<close>

lemma random_py_zero: "random_py (zero_at n) = (Fin 0, zero_at (Suc n))"
  by (simp add: random_py_def zero_at_def)

lemma randbelow_zero: "randbelow m (zero_at n) = (0, zero_at (Suc n))"
  by (simp add: randbelow_def zero_at_def)

lemma shuffle3_zero: "shuffle [a, b, c] (zero_at n) = ([b, c, a], zero_at (Suc (Suc n)))"
  by (simp add: shuffle_def shuffle_from_numeral randbelow_zero numeral_2_eq_2)

lemma sample_zero:
  "sample2 [Suc 0, Suc (Suc 0)] (zero_at n) = Inr ((Suc 0, Suc (Suc 0)), zero_at (Suc (Suc n)))"
  by (simp add: sample2_def randbelow_zero Let_def)

lemma qj4_zero:
  "quantum_jump_neighbor \<lparr>routes = [a, b, c, d], total_cost = tc, meta = m\<rparr> p
     (round_double (1 / 10)) (zero_at n)
     = Inr (\<lparr>routes = [a, b, c, d], total_cost = None, meta = m\<rparr>, zero_at (Suc (Suc (Suc n))))"
  by (simp add: quantum_jump_neighbor_def random_py_zero sample_zero slice_def slice_assign_def
      shuffle_def Let_def double_tenth)

lemma cost4: "tsp_total_cost \<lparr>routes = [a, b, c, d], total_cost = tc, meta = m\<rparr> p
   = Inr (\<lparr>routes = [a, b, c, d], total_cost = Some (accumulated_cost p [a, b, c, d]), meta = m\<rparr>,
          accumulated_cost p [a, b, c, d])"
  by (simp add: tsp_total_cost_eq)

lemma sa_loop4_zero:
  "sa_loop run_config p (Suc 0)
      \<lparr>routes = [a, b, c, d], total_cost = Some (accumulated_cost p [a, b, c, d]), meta = []\<rparr>
      (accumulated_cost p [a, b, c, d]) (Fin 100) (zero_at n)
   = Inr (\<lparr>routes = [a, b, c, d], total_cost = Some (accumulated_cost p [a, b, c, d]), meta = []\<rparr>,
          zero_at (Suc (Suc (Suc (Suc n)))))"
proof -
  have "temp_ok (Fin 100)" by simp
  from acceptance_probability_total [OF this] obtain ap where
    "acceptance_probability (accumulated_cost p [a, b, c, d]) (accumulated_cost p [a, b, c, d])
       (Fin 100) = Inr ap"
    by blast
  then show ?thesis
    by (simp add: run_config_def qj4_zero cost4 random_py_zero Let_def)
qed

lemma run_config_fields:
  "mini_iter run_config = 1" "start_temp run_config = Fin 100" "max_tick run_config = 2"
  "event_callback run_config = Some on_tick"
  by (simp_all add: run_config_def)

lemma line_costs:
  "accumulated_cost line_problem [1, 3, 2, 1] = Fin 3000000000"
  "accumulated_cost line_problem [2, 3, 1, 2] = Fin 1000000002"
  by (simp_all add: accumulated_cost_def edge_term_def line_problem_def upt_rec)

lemma line_nodes: "nodes line_problem = [1, 2, 3]"
  by (simp add: line_problem_def)

lemma initial_route_first:
  "current_node a = 1 \<Longrightarrow>
   initial_route line_problem a (zero_at n) = Inr ([1, 3, 2, 1], zero_at (Suc (Suc n)))"
  by (simp add: initial_route_def line_nodes shuffle3_zero index_of_def)

lemma initial_route_second:
  "current_node a = 2 \<Longrightarrow>
   initial_route line_problem a (zero_at n) = Inr ([2, 3, 1, 2], zero_at (Suc (Suc n)))"
  by (simp add: initial_route_def line_nodes shuffle3_zero index_of_def)

lemma local_sa_first:
  "current_node a = 1 \<Longrightarrow>
   local_sa run_config line_problem a (zero_at n) = Inr (tour1, zero_at (n + 6))"
  by (simp add: local_sa_def initial_route_first cost4 line_costs run_config_fields tour1_def
      sa_loop4_zero [where p = line_problem and a = 1 and b = 3 and c = 2 and d = 1,
        unfolded line_costs]
      eval_nat_numeral del: sa_loop.simps)

lemma local_sa_second:
  "current_node a = 2 \<Longrightarrow>
   local_sa run_config line_problem a (zero_at n) = Inr (tour2, zero_at (n + 6))"
  by (simp add: local_sa_def initial_route_second cost4 line_costs run_config_fields tour2_def
      sa_loop4_zero [where p = line_problem and a = 2 and b = 3 and c = 1 and d = 2,
        unfolded line_costs]
      eval_nat_numeral del: sa_loop.simps)

lemma fire_event_run_config: "tick \<noteq> 10 \<Longrightarrow> fire_event run_config tick p = Inr p"
  by (simp add: fire_event_def run_config_fields on_tick_def)

lemma propose_first:
  "propose_agent run_config line_problem (agent_init ''A1'' 1 3) pm sols (zero_at n)
   = Inr (agent_init ''A1'' 1 3, AList.update ''A1'' 3 pm, sols(''A1'' \<mapsto> tour1), zero_at (n + 6))"
proof -
  have "current_node (agent_init ''A1'' 1 3) = 1" by (simp add: agent_init_def)
  from local_sa_first [OF this, of n] show ?thesis
    by (simp add: propose_agent_def agent_init_def index_of_def tour1_def)
qed

lemma propose_second:
  "propose_agent run_config line_problem (agent_init ''A2'' 2 3) pm sols (zero_at n)
   = Inr (agent_init ''A2'' 2 3, AList.update ''A2'' 3 pm, sols(''A2'' \<mapsto> tour2), zero_at (n + 6))"
proof -
  have "current_node (agent_init ''A2'' 2 3) = 2" by (simp add: agent_init_def)
  from local_sa_second [OF this, of n] show ?thesis
    by (simp add: propose_agent_def agent_init_def index_of_def tour2_def)
qed

lemma propose_duel:
  "propose_moves run_config line_problem duel_agents [] sols (zero_at n)
   = Inr (duel_agents, [(''A1'', 3), (''A2'', 3)], sols(''A1'' \<mapsto> tour1, ''A2'' \<mapsto> tour2),
          zero_at (n + 12))"
  by (simp add: duel_agents_def propose_first propose_second add.commute [of 12 n])

lemma collisions_duel: "detect_collisions [(''A1'', 3), (''A2'', 3)] = [''A1'', ''A2'']"
  by (simp add: detect_collisions_def)

lemma resolve_duel: "resolve_moves duel_agents [(''A1'', 3), (''A2'', 3)] = Inr duel_agents"
  by (simp add: resolve_moves_def collisions_duel duel_agents_def agent_init_def unblock_def)

lemma tick_duel:
  "tick \<noteq> 10 \<Longrightarrow>
   tick_body run_config tick
     \<lparr>sched_problem = line_problem, agents = duel_agents, agent_solutions = sols, gen = zero_at n\<rparr>
   = Inr \<lparr>sched_problem = line_problem, agents = duel_agents,
          agent_solutions = sols(''A1'' \<mapsto> tour1, ''A2'' \<mapsto> tour2), gen = zero_at (n + 12)\<rparr>"
  by (simp add: tick_body_def fire_event_run_config propose_duel resolve_duel)

lemma duel_not_done: "\<not> list_all (\<lambda>a. status a = Completed) duel_agents"
  by (simp add: duel_agents_def agent_init_def)


lemma tick_solo:
  "tick_body run_config 0 solo_state
   = Inr \<lparr>sched_problem = line_problem,
          agents = [\<lparr>agent_id = ''A1'', start_node = 1, current_node = 3, goal_node = 3,
                     route = [1, 3], status = Completed\<rparr>],
          agent_solutions = [''A1'' \<mapsto> tour1], gen = zero_at 6\<rparr>"
  by (simp add: tick_body_def solo_state_def fire_event_run_config propose_first
      resolve_moves_def detect_collisions_def)
     (simp add: agent_init_def step_to_def unblock_def)

lemma run_solo:
  "run run_config solo_state
   = Inr \<lparr>final = \<lparr>sched_problem = line_problem,
          agents = [\<lparr>agent_id = ''A1'', start_node = 1, current_node = 3, goal_node = 3,
                     route = [1, 3], status = Completed\<rparr>],
          agent_solutions = [''A1'' \<mapsto> tour1], gen = zero_at 6\<rparr>,
          ticks_run = 1, outcome = Converged\<rparr>"
proof -
  have "run_loop run_config 0 solo_state
   = Inr \<lparr>final = \<lparr>sched_problem = line_problem,
          agents = [\<lparr>agent_id = ''A1'', start_node = 1, current_node = 3, goal_node = 3,
                     route = [1, 3], status = Completed\<rparr>],
          agent_solutions = [''A1'' \<mapsto> tour1], gen = zero_at 6\<rparr>,
          ticks_run = Suc 0, outcome = Converged\<rparr>"
    by (subst run_loop.simps) (simp add: run_config_fields tick_solo)
  then show ?thesis by (simp add: run_def)
qed

text \<open>The local search does not read the hook or the tick budget.\<close>

lemma sa_loop_hook:
  "sa_loop (c\<lparr>event_callback := h, max_tick := m\<rparr>) p k b bc t g = sa_loop c p k b bc t g"
  by (induction k arbitrary: b bc t g)
     (simp_all add: Let_def split: sum.splits prod.splits)

lemma local_sa_hook:
  "local_sa (c\<lparr>event_callback := h, max_tick := m\<rparr>) p a g = local_sa c p a g"
  by (simp add: local_sa_def sa_loop_hook split: sum.splits prod.splits)

lemma propose_agent_hook:
  "propose_agent (c\<lparr>event_callback := h, max_tick := m\<rparr>) p a pm sols g
   = propose_agent c p a pm sols g"
  by (simp add: propose_agent_def local_sa_hook split: sum.splits prod.splits)

lemma propose_moves_hook:
  "propose_moves (c\<lparr>event_callback := h, max_tick := m\<rparr>) p ags pm sols g
   = propose_moves c p ags pm sols g"
  by (induction ags arbitrary: pm sols g)
     (simp_all add: propose_agent_hook split: sum.splits prod.splits)

lemma tick_duel_raising:
  "tick_body raising_config 0 duel_state
   = Inr \<lparr>sched_problem = line_problem, agents = duel_agents,
          agent_solutions = [''A1'' \<mapsto> tour1, ''A2'' \<mapsto> tour2], gen = zero_at 12\<rparr>"
  by (simp add: tick_body_def raising_config_def propose_moves_hook fire_event_def
      raising_hook_def duel_state_def propose_duel [of Map.empty 0, simplified] resolve_duel)

lemma reach_tick_1:
  "state_before_tick raising_config duel_state (Suc 0)
   = Some \<lparr>sched_problem = line_problem, agents = duel_agents,
           agent_solutions = [''A1'' \<mapsto> tour1, ''A2'' \<mapsto> tour2], gen = zero_at 12\<rparr>"
  using duel_not_done
  by (simp add: tick_duel_raising all_completed_def) (simp add: raising_config_def)

subsection \<open>Tick scheduler: the claims\<close>

text \<open>
  Claim C7. In the state a tick hands to the next tick (after the unblocking step) no agent
  is \<open>Blocked\<close>, and every agent that the collision arbiter blocked during the tick is
  \<open>Active\<close> there and stands where it stood when the tick began, with the same route
  history.
\<close>

theorem blocking_is_transient:
  assumes "tick_body c tick s = Inr s'"
  shows "(\<forall>a\<in>set (agents s'). status a \<noteq> Blocked)
       \<and> (\<forall>k\<in>set (arbiter_blocked c tick s).
             status (agents s' ! k) = Active
             \<and> current_node (agents s' ! k) = current_node (agents s ! k)
             \<and> route (agents s' ! k) = route (agents s ! k))"
proof -
  from assms obtain p ags1 pm sols g ags4 where
    fe: "fire_event c tick (sched_problem s) = Inr p"
    and pm: "propose_moves c p (agents s) [] (agent_solutions s) (gen s) = Inr (ags1, pm, sols, g)"
    and rm: "resolve_moves ags1 pm = Inr ags4"
    and s': "s' = \<lparr>sched_problem = p, agents = ags4, agent_solutions = sols, gen = g\<rparr>"
    by (rule tick_body_cases)
  have l1: "length ags1 = length (agents s)"
    using propose_moves_result [OF pm] by (metis map_eq_imp_length_eq)
  have "\<forall>a\<in>set (agents s'). status a \<noteq> Blocked"
    using tick_body_result(1) [OF assms] .
  moreover have "status (agents s' ! k) = Active
             \<and> current_node (agents s' ! k) = current_node (agents s ! k)
             \<and> route (agents s' ! k) = route (agents s ! k)"
    if "k \<in> set (arbiter_blocked c tick s)" for k
  proof -
    from that fe pm obtain aid where aid: "aid \<in> set (detect_collisions pm)"
      "first_index (\<lambda>a. agent_id a = aid) ags1 = Some k"
      by (auto simp: arbiter_blocked_def List.map_filter_def)
    from first_index_Some [OF aid(2)] l1 have "k < length (agents s)" by simp
    with propose_moves_fields [OF pm] obtain st where "ags1 ! k = (agents s ! k)\<lparr>status := st\<rparr>"
      by blast
    then have "current_node (ags1 ! k) = current_node (agents s ! k)"
      "route (ags1 ! k) = route (agents s ! k)" by simp_all
    with resolve_moves_result(3) [OF rm] aid s' show ?thesis by simp
  qed
  ultimately show ?thesis by blast
qed

theorem blocking_is_transient_witness:
  "tick_body run_config 0 duel_state
     = Inr \<lparr>sched_problem = line_problem, agents = duel_agents,
            agent_solutions = [''A1'' \<mapsto> tour1, ''A2'' \<mapsto> tour2], gen = zero_at 12\<rparr>
   \<and> arbiter_blocked run_config 0 duel_state = [0, 1]
   \<and> map status duel_agents = [Active, Active]"
proof -
  have t0: "tick_body run_config 0 duel_state
     = Inr \<lparr>sched_problem = line_problem, agents = duel_agents,
            agent_solutions = [''A1'' \<mapsto> tour1, ''A2'' \<mapsto> tour2], gen = zero_at 12\<rparr>"
    using tick_duel [of 0 Map.empty 0] by (simp add: duel_state_def)
  have ab: "arbiter_blocked run_config 0 duel_state = [0, 1]"
    by (simp add: arbiter_blocked_def duel_state_def fire_event_run_config propose_duel
        collisions_duel map_filter_simps)
       (simp add: duel_agents_def agent_init_def)
  from blocking_is_transient [OF t0] ab have "map status duel_agents = [Active, Active]"
    by (simp add: duel_agents_def)
  with t0 ab show ?thesis by simp
qed




text \<open>
  Claim C2, as amended. The scheduler has no handler around the hook: when a run reaches a
  tick within its budget and the hook raises there, the exception ends the tick at step 1
  and propagates out of \<open>run\<close>; the rest of the tick and the later ticks are not executed.
\<close>

theorem hook_exception_propagates:
  assumes "state_before_tick c s0 tick = Some s" and "int tick < max_tick c"
    and "event_callback c = Some h" and "h tick (sched_problem s) = Inl e"
  shows "tick_body c tick s = Inl e \<and> run c s0 = Inl e"
proof -
  have tb: "tick_body c tick s = Inl e"
    using assms(3,4) by (simp add: tick_body_def fire_event_def)
  have "run_loop c tick s = Inl e"
    using assms(2) tb by (subst run_loop.simps) simp
  with run_loop_from_tick [OF assms(1)] have "run_loop c 0 s0 = Inl e" by simp
  with tb show ?thesis by (simp add: run_def)
qed

theorem hook_exception_propagates_witness:
  "state_before_tick raising_config duel_state (Suc 0)
     = Some \<lparr>sched_problem = line_problem, agents = duel_agents,
             agent_solutions = [''A1'' \<mapsto> tour1, ''A2'' \<mapsto> tour2], gen = zero_at 12\<rparr>
   \<and> int (Suc 0) < max_tick raising_config
   \<and> event_callback raising_config = Some raising_hook
   \<and> raising_hook (Suc 0) line_problem = Inl RuntimeError
   \<and> tick_body raising_config (Suc 0)
         \<lparr>sched_problem = line_problem, agents = duel_agents,
           agent_solutions = [''A1'' \<mapsto> tour1, ''A2'' \<mapsto> tour2], gen = zero_at 12\<rparr>
       = Inl RuntimeError
   \<and> run raising_config duel_state = Inl RuntimeError"
proof -
  let ?s1 = "\<lparr>sched_problem = line_problem, agents = duel_agents,
             agent_solutions = [''A1'' \<mapsto> tour1, ''A2'' \<mapsto> tour2], gen = zero_at 12\<rparr>"
  have b: "int (Suc 0) < max_tick raising_config"
    by (simp add: raising_config_def)
  have c: "event_callback raising_config = Some raising_hook"
    by (simp add: raising_config_def)
  have d: "raising_hook (Suc 0) (sched_problem ?s1) = Inl RuntimeError"
    by (simp add: raising_hook_def)
  from hook_exception_propagates [OF reach_tick_1 b c d] reach_tick_1 b c d
  show ?thesis by simp
qed

text \<open>
  Claim C2 as stated fails: with a hook that raises \<^verbatim>\<open>RuntimeError\<close> at tick 1 and a budget
  of five ticks, the run completes tick 0 and then ends with that exception, instead of
  proceeding to convergence or to the end of the budget.
\<close>

theorem hook_exception_aborts_run:
  "state_before_tick raising_config duel_state 1
     = Some \<lparr>sched_problem = line_problem, agents = duel_agents,
             agent_solutions = [''A1'' \<mapsto> tour1, ''A2'' \<mapsto> tour2], gen = zero_at 12\<rparr>
   \<and> max_tick raising_config = 5
   \<and> run raising_config duel_state = Inl RuntimeError"
proof -
  let ?s1 = "\<lparr>sched_problem = line_problem, agents = duel_agents,
             agent_solutions = [''A1'' \<mapsto> tour1, ''A2'' \<mapsto> tour2], gen = zero_at 12\<rparr>"
  have m: "max_tick raising_config = 5" "event_callback raising_config = Some raising_hook"
    by (simp_all add: raising_config_def)
  have "run_loop raising_config (Suc 0) ?s1 = Inl RuntimeError"
    by (subst run_loop.simps) (simp add: m tick_body_def fire_event_def raising_hook_def)
  with run_loop_from_tick [OF reach_tick_1] have "run_loop raising_config 0 duel_state = Inl RuntimeError"
    by simp
  then show ?thesis using reach_tick_1 m by (simp add: run_def)
qed

text \<open>
  Claim C10. \<open>step_to\<close> is total and takes no graph: it sets \<open>current_node\<close>, appends the
  node to the route and marks the agent \<open>Completed\<close> exactly when the node is the goal.
  So a run can commit a move along an edge that does not exist: on \<open>line_problem\<close>, whose
  only edges are \<open>1 \<rightarrow> 2\<close> and \<open>2 \<rightarrow> 3\<close>, the agent's final route is \<open>[1, 3]\<close>.
\<close>

theorem step_to_unvalidated:
  "step_to a next_node =
     a\<lparr>current_node := next_node, route := route a @ [next_node],
       status := (if next_node = goal_node a then Completed else status a)\<rparr>
   \<and> (\<exists>r. run run_config solo_state = Inr r
          \<and> map route (agents (final r)) = [[1, 3]]
          \<and> \<not> has_edge (sched_problem (final r)) 1 3)"
proof -
  have "\<not> has_edge line_problem 1 3" by (simp add: has_edge_def line_problem_def)
  then show ?thesis by (simp add: step_to_def Let_def run_solo)
qed

text \<open>
  Claim C8. A freshly constructed agent has a non-empty route history that starts at
  \<open>start_node\<close> and ends at \<open>current_node\<close>; \<open>step_to\<close> keeps that invariant, appends
  exactly the new node to the history (the existing prefix is unchanged) and leaves
  \<open>start_node\<close> alone; and when every agent satisfies the invariant before a run, every
  agent satisfies it after the run.
\<close>

theorem agent_route_invariant:
  "agent_inv (agent_init aid start goal)
   \<and> (agent_inv a \<longrightarrow> agent_inv (step_to a next_node))
   \<and> route (step_to a next_node) = route a @ [next_node]
   \<and> start_node (step_to a next_node) = start_node a
   \<and> (list_all agent_inv (agents s) \<and> run c s = Inr r \<longrightarrow>
        list_all agent_inv (agents (final r)))"
proof -
  have "list_all agent_inv (agents (final r))"
    if "list_all agent_inv (agents s)" "run c s = Inr r"
  proof -
    from that(2) have "run_loop c 0 s = Inr r"
      by (auto simp: run_def split: sum.splits if_splits)
    from run_loop_inv [OF this that(1)] show ?thesis .
  qed
  then show ?thesis
    by (auto simp: agent_inv_def agent_init_def step_to_def Let_def)
qed

theorem agent_route_invariant_witness:
  "agent_inv (agent_init ''A1'' 1 3)
   \<and> agent_inv (step_to (agent_init ''A1'' 1 3) 2)
   \<and> route (step_to (agent_init ''A1'' 1 3) 2) = [1, 2]
   \<and> list_all agent_inv (agents solo_state)
   \<and> (\<exists>r. run run_config solo_state = Inr r \<and> list_all agent_inv (agents (final r))
          \<and> map route (agents (final r)) = [[1, 3]])"
proof -
  let ?r = "\<lparr>final = \<lparr>sched_problem = line_problem,
          agents = [\<lparr>agent_id = ''A1'', start_node = 1, current_node = 3, goal_node = 3,
                     route = [1, 3], status = Completed\<rparr>],
          agent_solutions = [''A1'' \<mapsto> tour1], gen = zero_at 6\<rparr>,
          ticks_run = 1, outcome = Converged\<rparr>"
  have i: "agent_inv (agent_init ''A1'' 1 3)" by (simp add: agent_inv_def agent_init_def)
  then have s: "list_all agent_inv (agents solo_state)" by (simp add: solo_state_def)
  have r: "run run_config solo_state = Inr ?r" by (rule run_solo)
  from agent_route_invariant [of "''A1''" 1 3 "agent_init ''A1'' 1 3" 2 solo_state run_config ?r] i s r
  have "agent_inv (step_to (agent_init ''A1'' 1 3) 2)"
    and "route (step_to (agent_init ''A1'' 1 3) 2) = [1, 2]"
    and "list_all agent_inv (agents (final ?r))"
    by (simp_all add: agent_init_def)
  with i s r show ?thesis by simp
qed

subsection \<open>The generic annealer keeps the best candidate\<close>

text \<open>
  \<^verbatim>\<open>Annealer.run\<close> updates \<^verbatim>\<open>best\<close> only on an improvement, so what it returns has the
  cost of the initial candidate or a lower one (for a cost function that records the cost
  it returns, as \<open>tsp_total_cost\<close> does).
\<close>

lemma annealer_loop_best:
  assumes cf: "\<And>s s' c. cost_fn an s p = Inr (s', c) \<Longrightarrow> total_cost s' = Some c"
  shows "annealer_loop an p k current current_cost best best_cost temperature g = Inr (b, g') \<Longrightarrow>
         total_cost best = Some best_cost \<Longrightarrow>
         \<exists>c. total_cost b = Some c \<and> (c = best_cost \<or> flt c best_cost)"
proof (induction k arbitrary: current current_cost best best_cost temperature g)
  case 0
  then show ?case by simp
next
  case (Suc k)
  from Suc.prems(1) obtain n0 g1 nb nc ap u g2 where
    nf: "neighbor_fn an current p g = Inr (n0, g1)"
    and c: "cost_fn an n0 p = Inr (nb, nc)"
    and ap: "acceptance_probability current_cost nc temperature = Inr ap"
    and u: "random_py g1 = (u, g2)"
    by (auto split: sum.splits prod.splits)
  define improved where "improved \<longleftrightarrow> flt u ap \<and> flt nc best_cost"
  define best' where "best' = (if improved then nb else best)"
  define bc' where "bc' = (if improved then nc else best_cost)"
  have tc': "total_cost best' = Some bc'"
    using cf [OF c] Suc.prems(2) by (simp add: best'_def bc'_def)
  have le: "bc' = best_cost \<or> flt bc' best_cost" by (simp add: bc'_def improved_def)
  from Suc.prems(1) nf c ap u
  have "Inr (b, g') = Inr (best', g2)
      \<or> (\<exists>cur' cc' t'. annealer_loop an p k cur' cc' best' bc' t' g2 = Inr (b, g'))"
    by (auto simp: Let_def best'_def bc'_def improved_def split: if_splits)
  then show ?case
  proof
    assume "Inr (b, g') = Inr (best', g2)"
    with tc' le show ?thesis by simp
  next
    assume "\<exists>cur' cc' t'. annealer_loop an p k cur' cc' best' bc' t' g2 = Inr (b, g')"
    then obtain cur' cc' t' where "annealer_loop an p k cur' cc' best' bc' t' g2 = Inr (b, g')"
      by blast
    from Suc.IH [OF this tc'] obtain c' where
      c': "total_cost b = Some c'" "c' = bc' \<or> flt c' bc'" by blast
    from c'(2) le have "c' = best_cost \<or> flt c' best_cost"
      using flt_trans [of c' bc' best_cost] by blast
    with c'(1) show ?thesis by simp
  qed
qed

lemma annealer_run_best:
  assumes cf: "\<And>s s' c. cost_fn an s p = Inr (s', c) \<Longrightarrow> total_cost s' = Some c"
    and "initial_solution_fn an p g = Inr (initial, g1)"
    and "cost_fn an initial p = Inr (current, initial_cost)"
    and "annealer_run an p g = Inr (b, g')"
  shows "\<exists>c. total_cost b = Some c \<and> (c = initial_cost \<or> flt c initial_cost)"
proof -
  from assms(2,3,4) have
    "annealer_loop an p (nat (max_iter an)) current initial_cost current initial_cost
       (start_temp_a an) g1 = Inr (b, g')"
    by (simp add: annealer_run_def)
  from annealer_loop_best [OF cf this] cf [OF assms(3)] show ?thesis by simp
qed

text \<open>
  On the input on which \<open>local_sa\<close> returns the tour of cost \<open>5\<close>, the generic annealer
  makes the same moves and returns the initial tour of cost \<open>4\<close>.
\<close>

lemma annealer_keeps_cheaper_candidate:
  "annealer_run sa_annealer sa_problem (sa_rng 0)
   = Inr (\<lparr>routes = [1, 3, 4, 2, 1], total_cost = Some (Fin 4), meta = []\<rparr>, sa_rng 7)"
proof -
  have u: "random_py (sa_rng 6) = (Fin (1 / 2), sa_rng 7)"
    using sa_random_half [of 6] by simp
  from accept_worse obtain ap where
    ap: "acceptance_probability (Fin 4) (Fin 5) (Fin 100) = Inr ap" "flt (Fin (1 / 2)) ap"
    by blast
  then show ?thesis
    by (simp add: annealer_run_def sa_annealer_def sa_initial_route sa_initial_cost sa_neighbor
        sa_neighbor_cost u Let_def)
qed

end
